theory Spec2Isabelle
  imports Main "HOL-Library.Multiset" "HOL-Library.Word"
begin

unbundle bit_operations_syntax

section \<open>Asset descriptors\<close>

text \<open>
  The descriptor type \<open>EnqueuedScript\<close> as the loaders and the resolver use it. Every
  field is optional in the source; a field that is absent (\<open>undefined\<close> or \<open>null\<close>)
  is \<open>None\<close>. A dependency entry is itself a descriptor reference of which only
  \<open>handle\<close> and \<open>id\<close> are read; an entry of the array may be \<open>null\<close>.
\<close>

datatype ScriptLoadingGroupEnum = HEADER | FOOTER

datatype ScriptLoadingStrategyEnum = BLOCKING | ASYNC | DEFER

datatype inline_code = Single string | Fragments "string list"

record script_ref =
  ref_id :: "string option"
  ref_handle :: "string option"

record EnqueuedScript =
  id_s :: "string option"
  handle :: "string option"
  src :: "string option"
  dependencies :: "script_ref option list option"
  before :: "inline_code option"
  after :: "inline_code option"
  extraData :: "string option"
  location :: "ScriptLoadingGroupEnum option"
  strategy :: "ScriptLoadingStrategyEnum option"

text \<open>
  JavaScript truthiness of an optional string: absent and the empty string are falsy.
  \<open>truthy s\<close> is \<open>Some v\<close> exactly when the source's \<open>if (s)\<close> succeeds.
\<close>

definition truthy :: "string option \<Rightarrow> string option" where
  "truthy s = (case s of None \<Rightarrow> None | Some v \<Rightarrow> if v = [] then None else Some v)"

section \<open>Insertion-ordered maps\<close>

text \<open>
  A JavaScript \<open>Map\<close> iterates in insertion order and \<open>set\<close> on a present key keeps
  the key's position: an association list without duplicate keys.
\<close>

type_synonym ('k, 'v) jsmap = "('k \<times> 'v) list"

fun map_get :: "('k, 'v) jsmap \<Rightarrow> 'k \<Rightarrow> 'v option" where
  "map_get [] k = None"
| "map_get ((k', v) # m) k = (if k' = k then Some v else map_get m k)"

definition map_has :: "('k, 'v) jsmap \<Rightarrow> 'k \<Rightarrow> bool" where
  "map_has m k = (map_get m k \<noteq> None)"

fun map_set :: "('k, 'v) jsmap \<Rightarrow> 'k \<Rightarrow> 'v \<Rightarrow> ('k, 'v) jsmap" where
  "map_set [] k v = [(k, v)]"
| "map_set ((k', v') # m) k v = (if k' = k then (k, v) # m else (k', v') # map_set m k v)"

section \<open>The dependency resolver\<close>

text \<open>\<open>scriptMap\<close>: descriptors by handle; a later descriptor with the same handle wins.\<close>

definition build_scriptMap :: "EnqueuedScript list \<Rightarrow> (string, EnqueuedScript) jsmap" where
  "build_scriptMap scripts =
     fold (\<lambda>script m. case truthy (handle script) of
                         None \<Rightarrow> m
                       | Some h \<Rightarrow> map_set m h script) scripts []"

text \<open>The first pass: every handle gets an empty adjacency list and in-degree 0.\<close>

definition init_graph ::
  "EnqueuedScript list \<Rightarrow> (string, string list) jsmap \<times> (string, int) jsmap" where
  "init_graph scripts =
     fold (\<lambda>script (adjList, inDegree).
             case truthy (handle script) of
               None \<Rightarrow> (adjList, inDegree)
             | Some h \<Rightarrow> if \<not> map_has adjList h
                         then (map_set adjList h [], map_set inDegree h 0)
                         else (adjList, inDegree)) scripts ([], [])"

text \<open>
  \<open>script.dependencies?.filter(Boolean) || []\<close>: the non-null entries, none when the
  array is absent.
\<close>

definition dependencies_of :: "EnqueuedScript \<Rightarrow> script_ref list" where
  "dependencies_of script =
     (case dependencies script of None \<Rightarrow> [] | Some ds \<Rightarrow> List.map_filter (\<lambda>d. d) ds)"

text \<open>\<open>(inDegree.get(h) || 0)\<close>: an absent key reads as 0.\<close>

definition get_degree :: "(string, int) jsmap \<Rightarrow> string \<Rightarrow> int" where
  "get_degree inDegree h = (case map_get inDegree h of None \<Rightarrow> 0 | Some n \<Rightarrow> n)"

definition get_list :: "(string, string list) jsmap \<Rightarrow> string \<Rightarrow> string list" where
  "get_list adjList h = (case map_get adjList h of None \<Rightarrow> [] | Some l \<Rightarrow> l)"

text \<open>One dependency entry of one descriptor: the edge from dependency to dependent.\<close>

definition add_edge ::
  "(string, EnqueuedScript) jsmap \<Rightarrow> string \<Rightarrow> script_ref \<Rightarrow>
   (string, string list) jsmap \<times> (string, int) jsmap \<Rightarrow>
   (string, string list) jsmap \<times> (string, int) jsmap" where
  "add_edge scriptMap h dep = (\<lambda>(adjList, inDegree).
     case truthy (ref_handle dep) of
       None \<Rightarrow> (adjList, inDegree)
     | Some d \<Rightarrow> if map_has scriptMap d
                 then (map_set adjList d (get_list adjList d @ [h]),
                       map_set inDegree h (get_degree inDegree h + 1))
                 else (adjList, inDegree))"

definition build_graph ::
  "(string, EnqueuedScript) jsmap \<Rightarrow> EnqueuedScript list \<Rightarrow>
   (string, string list) jsmap \<times> (string, int) jsmap \<Rightarrow>
   (string, string list) jsmap \<times> (string, int) jsmap" where
  "build_graph scriptMap scripts g =
     fold (\<lambda>script g'. case truthy (handle script) of
                          None \<Rightarrow> g'
                        | Some h \<Rightarrow> fold (add_edge scriptMap h) (dependencies_of script) g')
          scripts g"

text \<open>The queue is seeded with the handles of in-degree 0, in the map's order.\<close>

definition seed_queue :: "(string, int) jsmap \<Rightarrow> string list" where
  "seed_queue inDegree = map fst (filter (\<lambda>(h, degree). degree = 0) inDegree)"

text \<open>
  The body of \<open>dependents.forEach\<close>: decrement the dependent's in-degree and enqueue it
  when the new value is 0.
\<close>

definition relax :: "string \<Rightarrow> (string, int) jsmap \<times> string list \<Rightarrow>
                     (string, int) jsmap \<times> string list" where
  "relax dependent = (\<lambda>(inDegree, queue).
     let newDegree = get_degree inDegree dependent - 1
     in (map_set inDegree dependent newDegree,
         if newDegree = 0 then queue @ [dependent] else queue))"

definition pos_sum :: "(string, int) jsmap \<Rightarrow> nat" where
  "pos_sum inDegree = sum_list (map (\<lambda>(h, n). nat n) inDegree)"

lemma pos_sum_map_set:
  "pos_sum (map_set m k v) + nat (get_degree m k) = pos_sum m + nat v"
  by (induction m) (auto simp: pos_sum_def get_degree_def)

lemma relax_measure:
  "relax d (deg, q) = (deg', q') \<Longrightarrow> length q' + pos_sum deg' \<le> length q + pos_sum deg"
proof -
  assume a: "relax d (deg, q) = (deg', q')"
  have e: "pos_sum (map_set deg d (get_degree deg d - 1)) + nat (get_degree deg d)
           = pos_sum deg + nat (get_degree deg d - 1)"
    by (rule pos_sum_map_set)
  show ?thesis
  proof (cases "get_degree deg d - 1 = 0")
    case True
    then have "nat (get_degree deg d) = 1" by simp
    with a e True show ?thesis by (auto simp: relax_def Let_def)
  next
    case False
    with a e show ?thesis by (auto simp: relax_def Let_def)
  qed
qed

lemma fold_relax_measure:
  "fold relax ds (deg, q) = (deg', q') \<Longrightarrow>
   length q' + pos_sum deg' \<le> length q + pos_sum deg"
proof (induction ds arbitrary: deg q)
  case Nil
  then show ?case by simp
next
  case (Cons d ds)
  obtain deg1 q1 where r: "relax d (deg, q) = (deg1, q1)" by (cases "relax d (deg, q)")
  with Cons.prems have "fold relax ds (deg1, q1) = (deg', q')" by simp
  from Cons.IH [OF this] relax_measure [OF r] show ?case by linarith
qed

text \<open>
  The \<open>while (queue.length > 0)\<close> loop of Kahn's algorithm. \<open>adjList\<close> is not changed
  by the loop; the state is the queue, the sorted handles and the in-degrees.
\<close>

function kahn_loop ::
  "(string, string list) jsmap \<Rightarrow> string list \<Rightarrow> string list \<Rightarrow> (string, int) jsmap \<Rightarrow>
   string list \<times> (string, int) jsmap" where
  "kahn_loop adjList [] sorted_h inDegree = (sorted_h, inDegree)"
| "kahn_loop adjList (current # queue) sorted_h inDegree =
     (case fold relax (get_list adjList current) (inDegree, queue) of
        (inDegree', queue') \<Rightarrow> kahn_loop adjList queue' (sorted_h @ [current]) inDegree')"
  by pat_completeness auto
termination
  apply (relation "measure (\<lambda>(adjList, queue, sorted_h, inDegree). length queue + pos_sum inDegree)")
   apply simp
  apply (auto dest!: fold_relax_measure [OF sym])
  done

text \<open>
  After the loop: the handles left out of \<open>sorted\<close> are appended in input order, each
  once (\<open>sorted.includes\<close> reads the list as it grows).
\<close>

definition append_remaining :: "EnqueuedScript list \<Rightarrow> string list \<Rightarrow> string list" where
  "append_remaining scripts sorted_h =
     fold (\<lambda>script acc. case truthy (handle script) of
                           None \<Rightarrow> acc
                         | Some h \<Rightarrow> if h \<notin> set acc then acc @ [h] else acc) scripts sorted_h"

text \<open>The warning of the resolver carries the two counts of its message.\<close>

record sort_warning =
  expected :: nat
  got :: nat

definition kahn_sorted :: "EnqueuedScript list \<Rightarrow> string list" where
  "kahn_sorted scripts =
     (let scriptMap = build_scriptMap scripts;
          (adjList, inDegree) = build_graph scriptMap scripts (init_graph scripts)
      in fst (kahn_loop adjList (seed_queue inDegree) [] inDegree))"

definition sort_handles :: "EnqueuedScript list \<Rightarrow> string list" where
  "sort_handles scripts =
     (let sorted_h = kahn_sorted scripts
      in if length sorted_h \<noteq> length scripts then append_remaining scripts sorted_h else sorted_h)"

definition sort_warns :: "EnqueuedScript list \<Rightarrow> sort_warning option" where
  "sort_warns scripts =
     (if scripts = [] then None
      else let sorted_h = kahn_sorted scripts
           in if length sorted_h \<noteq> length scripts
              then Some \<lparr>expected = length scripts, got = length sorted_h\<rparr>
              else None)"

definition sortScriptsByDependencies :: "EnqueuedScript list \<Rightarrow> EnqueuedScript list" where
  "sortScriptsByDependencies scripts =
     (if scripts = [] then []
      else List.map_filter (map_get (build_scriptMap scripts)) (sort_handles scripts)
           @ filter (\<lambda>script. truthy (handle script) = None) scripts)"

section \<open>Correctness of the resolver\<close>

definition handles_of :: "EnqueuedScript list \<Rightarrow> string list" where
  "handles_of scripts = List.map_filter (\<lambda>script. truthy (handle script)) scripts"

definition script_edges :: "string set \<Rightarrow> EnqueuedScript \<Rightarrow> (string \<times> string) list" where
  "script_edges K script =
     (case truthy (handle script) of
        None \<Rightarrow> []
      | Some h \<Rightarrow> List.map_filter
                    (\<lambda>dep. case truthy (ref_handle dep) of
                             None \<Rightarrow> None
                           | Some d \<Rightarrow> if d \<in> K then Some (d, h) else None)
                    (dependencies_of script))"

definition dep_edges :: "EnqueuedScript list \<Rightarrow> (string \<times> string) list" where
  "dep_edges scripts = concat (map (script_edges (set (handles_of scripts))) scripts)"

definition map_keys :: "('k, 'v) jsmap \<Rightarrow> 'k list" where
  "map_keys m = map fst m"

lemma map_get_map_set: "map_get (map_set m k v) k' = (if k = k' then Some v else map_get m k')"
  by (induction m) auto

lemma keys_map_set0:
  "map fst (map_set m k v) = (if k \<in> fst ` set m then map fst m else map fst m @ [k])"
  by (induction m) (force simp: image_iff)+

lemma keys_map_set:
  "map_keys (map_set m k v) = (if k \<in> set (map_keys m) then map_keys m else map_keys m @ [k])"
  by (simp add: map_keys_def keys_map_set0)

lemma keyset_map_set: "fst ` set (map_set m k v) = insert k (fst ` set m)"
proof -
  have "set (map fst (map_set m k v)) = insert k (set (map fst m))"
    unfolding keys_map_set0 by auto
  then show ?thesis by simp
qed

lemma map_get_None: "map_get m k = None \<longleftrightarrow> k \<notin> fst ` set m"
  by (induction m) (auto simp: image_iff split: if_splits)

lemma map_has_keys0: "map_has m k \<longleftrightarrow> k \<in> fst ` set m"
  by (simp add: map_has_def map_get_None)

lemma map_has_keys: "map_has m k \<longleftrightarrow> k \<in> set (map_keys m)"
  by (simp add: map_has_keys0 map_keys_def)

lemma map_get_in: "map_get m k = Some v \<Longrightarrow> (k, v) \<in> set m"
  by (induction m) (auto split: if_splits)

lemma handles_of_Cons:
  "handles_of (s # ss) = (case truthy (handle s) of None \<Rightarrow> handles_of ss | Some h \<Rightarrow> h # handles_of ss)"
  by (simp add: handles_of_def List.map_filter_simps split: option.splits)

lemma handles_of_append: "handles_of (xs @ ys) = handles_of xs @ handles_of ys"
  by (simp add: handles_of_def List.map_filter_def)

lemma scriptMap_fold_keys:
  "fst ` set (fold (\<lambda>script m. case truthy (handle script) of None \<Rightarrow> m
                      | Some h \<Rightarrow> map_set m h script) scripts m0)
   = fst ` set m0 \<union> set (handles_of scripts)"
proof (induction scripts arbitrary: m0)
  case Nil
  then show ?case by (simp add: handles_of_def List.map_filter_simps)
next
  case (Cons s ss)
  have k: "\<And>h. fst ` set (map_set m0 h s) = insert h (fst ` set m0)"
    by (rule keyset_map_set)
  show ?case
    by (cases "truthy (handle s)") (auto simp: Cons.IH handles_of_Cons k)
qed

lemma scriptMap_has: "map_has (build_scriptMap scripts) d \<longleftrightarrow> d \<in> set (handles_of scripts)"
  by (simp add: map_has_keys0 build_scriptMap_def scriptMap_fold_keys)


lemma get_list_map_set:
  "get_list (map_set m k v) k' = (if k = k' then v else get_list m k')"
  by (simp add: get_list_def map_get_map_set)

lemma get_degree_map_set:
  "get_degree (map_set m k v) k' = (if k = k' then v else get_degree m k')"
  by (simp add: get_degree_def map_get_map_set)

definition graph_inv ::
  "string list \<Rightarrow> (string \<times> string) list \<Rightarrow>
   (string, string list) jsmap \<times> (string, int) jsmap \<Rightarrow> bool" where
  "graph_inv Ks es g = (case g of (adjList, inDegree) \<Rightarrow>
     map_keys adjList = Ks \<and> map_keys inDegree = Ks \<and> distinct Ks \<and>
     (\<forall>d. get_list adjList d = map snd (filter (\<lambda>e. fst e = d) es)) \<and>
     (\<forall>h. get_degree inDegree h = int (length (filter (\<lambda>e. snd e = h) es))))"

fun first_handles :: "string list \<Rightarrow> string list \<Rightarrow> string list" where
  "first_handles acc [] = acc"
| "first_handles acc (h # hs) = first_handles (if h \<in> set acc then acc else acc @ [h]) hs"

lemma first_handles_props:
  "distinct acc \<Longrightarrow> distinct (first_handles acc hs) \<and> set (first_handles acc hs) = set acc \<union> set hs"
  by (induction hs arbitrary: acc) auto

lemma init_graph_fold:
  "graph_inv Ks [] g \<Longrightarrow>
   graph_inv (first_handles Ks (handles_of scripts)) []
     (fold (\<lambda>script (adjList, inDegree).
             case truthy (handle script) of
               None \<Rightarrow> (adjList, inDegree)
             | Some h \<Rightarrow> if \<not> map_has adjList h
                         then (map_set adjList h [], map_set inDegree h 0)
                         else (adjList, inDegree)) scripts g)"
proof (induction scripts arbitrary: Ks g)
  case Nil
  then show ?case by (simp add: handles_of_def List.map_filter_simps)
next
  case (Cons s ss)
  obtain adj deg where g: "g = (adj, deg)" by (cases g)
  show ?case
  proof (cases "truthy (handle s)")
    case None
    with Cons show ?thesis by (simp add: handles_of_Cons g)
  next
    case (Some h)
    show ?thesis
    proof (cases "map_has adj h")
      case True
      with Cons.prems g have "h \<in> set Ks" by (auto simp: graph_inv_def map_has_keys)
      with Cons True Some show ?thesis by (simp add: handles_of_Cons g)
    next
      case False
      with Cons.prems g have nin: "h \<notin> set Ks" by (auto simp: graph_inv_def map_has_keys)
      from Cons.prems g nin have "graph_inv (Ks @ [h]) [] (map_set adj h [], map_set deg h 0)"
        by (auto simp: graph_inv_def keys_map_set get_list_map_set get_degree_map_set)
      from Cons.IH [OF this] False Some nin show ?thesis by (simp add: handles_of_Cons g)
    qed
  qed
qed

lemma init_graph_inv:
  "graph_inv (first_handles [] (handles_of scripts)) [] (init_graph scripts)"
  unfolding init_graph_def
  by (rule init_graph_fold) (simp add: graph_inv_def get_list_def get_degree_def map_keys_def)

lemma map_filter_Cons1: "List.map_filter f (x # xs) = List.map_filter f [x] @ List.map_filter f xs"
  by (cases "f x") (simp_all add: List.map_filter_simps)

definition dep_edge :: "string set \<Rightarrow> string \<Rightarrow> script_ref \<Rightarrow> (string \<times> string) option" where
  "dep_edge K h dep = (case truthy (ref_handle dep) of
                         None \<Rightarrow> None
                       | Some d \<Rightarrow> if d \<in> K then Some (d, h) else None)"

lemma add_edge_inv:
  assumes "graph_inv Ks es g" "h \<in> set Ks" "\<And>d. map_has M d \<longleftrightarrow> d \<in> set Ks"
  shows "graph_inv Ks (es @ List.map_filter (dep_edge (set Ks) h) [dep]) (add_edge M h dep g)"
proof -
  obtain adj deg where g: "g = (adj, deg)" by (cases g)
  show ?thesis
  proof (cases "truthy (ref_handle dep)")
    case None
    with assms show ?thesis
      by (simp add: add_edge_def g dep_edge_def List.map_filter_simps)
  next
    case (Some d)
    show ?thesis
    proof (cases "d \<in> set Ks")
      case False
      with assms Some show ?thesis
        by (simp add: add_edge_def g dep_edge_def List.map_filter_simps)
    next
      case True
      with assms Some True show ?thesis
        by (auto simp: add_edge_def g dep_edge_def List.map_filter_simps graph_inv_def
            keys_map_set get_list_map_set get_degree_map_set)
    qed
  qed
qed

lemma fold_add_edge_inv:
  assumes "h \<in> set Ks" "\<And>d. map_has M d \<longleftrightarrow> d \<in> set Ks"
  shows "graph_inv Ks es g \<Longrightarrow>
         graph_inv Ks (es @ List.map_filter (dep_edge (set Ks) h) deps) (fold (add_edge M h) deps g)"
proof (induction deps arbitrary: es g)
  case Nil
  then show ?case by (simp add: List.map_filter_simps)
next
  case (Cons dep deps)
  from add_edge_inv [OF Cons.prems assms]
  have "graph_inv Ks (es @ List.map_filter (dep_edge (set Ks) h) [dep]) (add_edge M h dep g)" .
  from Cons.IH [OF this] show ?case
    by (cases "dep_edge (set Ks) h dep") (simp_all add: List.map_filter_simps)
qed

lemma script_edges_alt:
  "script_edges K script =
     (case truthy (handle script) of None \<Rightarrow> []
      | Some h \<Rightarrow> List.map_filter (dep_edge K h) (dependencies_of script))"
  unfolding script_edges_def dep_edge_def ..

lemma build_graph_inv:
  assumes "\<And>d. map_has M d \<longleftrightarrow> d \<in> set Ks"
  shows "graph_inv Ks es g \<Longrightarrow> set (handles_of scripts) \<subseteq> set Ks \<Longrightarrow>
         graph_inv Ks (es @ concat (map (script_edges (set Ks)) scripts)) (build_graph M scripts g)"
proof (induction scripts arbitrary: es g)
  case Nil
  then show ?case by (simp add: build_graph_def)
next
  case (Cons s ss)
  show ?case
  proof (cases "truthy (handle s)")
    case None
    with Cons.prems have "set (handles_of ss) \<subseteq> set Ks" by (simp add: handles_of_Cons)
    from Cons.IH [OF Cons.prems(1) this] None show ?thesis
      by (simp add: build_graph_def script_edges_alt)
  next
    case (Some h)
    with Cons.prems have h: "h \<in> set Ks" and ss: "set (handles_of ss) \<subseteq> set Ks"
      by (simp_all add: handles_of_Cons)
    from fold_add_edge_inv [OF h assms Cons.prems(1)]
    have "graph_inv Ks (es @ script_edges (set Ks) s) (fold (add_edge M h) (dependencies_of s) g)"
      by (simp add: script_edges_alt Some)
    from Cons.IH [OF this ss] Some show ?thesis
      by (simp add: build_graph_def)
  qed
qed

lemma graph_built:
  "graph_inv (first_handles [] (handles_of scripts)) (dep_edges scripts)
     (build_graph (build_scriptMap scripts) scripts (init_graph scripts))"
proof -
  have k: "set (first_handles [] (handles_of scripts)) = set (handles_of scripts)"
    using first_handles_props [of "[]" "handles_of scripts"] by simp
  have "graph_inv (first_handles [] (handles_of scripts))
          ([] @ concat (map (script_edges (set (first_handles [] (handles_of scripts)))) scripts))
          (build_graph (build_scriptMap scripts) scripts (init_graph scripts))"
    by (rule build_graph_inv) (simp_all add: scriptMap_has k init_graph_inv)
  then show ?thesis by (simp add: dep_edges_def k)
qed

definition indeg_rem :: "(string \<times> string) list \<Rightarrow> string set \<Rightarrow> string \<Rightarrow> nat" where
  "indeg_rem E S h = length (filter (\<lambda>e. snd e = h \<and> fst e \<notin> S) E)"

lemma indeg_rem_insert:
  "c \<notin> S \<Longrightarrow>
   indeg_rem E S h = indeg_rem E (insert c S) h + count_list (map snd (filter (\<lambda>e. fst e = c) E)) h"
  by (induction E) (auto simp: indeg_rem_def)

lemma indeg_rem_zero: "indeg_rem E S h = 0 \<longleftrightarrow> (\<forall>d. (d, h) \<in> set E \<longrightarrow> d \<in> S)"
  by (induction E) (auto simp: indeg_rem_def)

definition topo :: "(string \<times> string) list \<Rightarrow> string list \<Rightarrow> bool" where
  "topo E xs = (\<forall>i<length xs. \<forall>d. (d, xs ! i) \<in> set E \<longrightarrow> d \<in> set (take i xs))"

lemma topo_snoc:
  assumes "topo E xs" "\<forall>d. (d, c) \<in> set E \<longrightarrow> d \<in> set xs"
  shows "topo E (xs @ [c])"
  unfolding topo_def
proof (intro allI impI)
  fix i d
  assume i: "i < length (xs @ [c])" and e: "(d, (xs @ [c]) ! i) \<in> set E"
  show "d \<in> set (take i (xs @ [c]))"
  proof (cases "i < length xs")
    case True
    with e have "(d, xs ! i) \<in> set E" by (simp add: nth_append)
    with assms(1) True have "d \<in> set (take i xs)" by (simp add: topo_def)
    with True show ?thesis by simp
  next
    case False
    with i have "i = length xs" by simp
    with e assms(2) show ?thesis by simp
  qed
qed

definition relax_inv ::
  "(string \<times> string) list \<Rightarrow> string list \<Rightarrow> string list \<Rightarrow> string list \<Rightarrow>
   (string, int) jsmap \<Rightarrow> string list \<Rightarrow> bool" where
  "relax_inv E Ks srt ds deg q =
    (map_keys deg = Ks \<and> set ds \<subseteq> set Ks \<and> distinct (srt @ q) \<and> set (srt @ q) \<subseteq> set Ks \<and>
     (\<forall>h\<in>set Ks. get_degree deg h = int (indeg_rem E (set srt) h + count_list ds h)) \<and>
     (\<forall>h\<in>set Ks. h \<in> set (srt @ q) \<longleftrightarrow> indeg_rem E (set srt) h + count_list ds h = 0))"

lemma relax_step:
  assumes "relax_inv E Ks srt (d # ds) deg q"
  shows "relax_inv E Ks srt ds (fst (relax d (deg, q))) (snd (relax d (deg, q)))"
proof -
  let ?n = "indeg_rem E (set srt) d + count_list ds d"
  from assms have d: "d \<in> set Ks" and keys: "map_keys deg = Ks" and ds: "set ds \<subseteq> set Ks"
    and dist: "distinct (srt @ q)" and sub: "set (srt @ q) \<subseteq> set Ks"
    and deg: "\<And>h. h \<in> set Ks \<Longrightarrow>
                get_degree deg h = int (indeg_rem E (set srt) h + count_list (d # ds) h)"
    and mem: "\<And>h. h \<in> set Ks \<Longrightarrow>
                h \<in> set (srt @ q) \<longleftrightarrow> indeg_rem E (set srt) h + count_list (d # ds) h = 0"
    by (simp_all add: relax_inv_def)
  from deg [OF d] have gd: "get_degree deg d = int ?n + 1" by simp
  from mem [OF d] have nin: "d \<notin> set (srt @ q)" by simp
  let ?deg' = "map_set deg d (int ?n)"
  let ?q' = "if ?n = 0 then q @ [d] else q"
  have r: "relax d (deg, q) = (?deg', ?q')"
    by (simp add: relax_def Let_def gd)
  have k': "map_keys ?deg' = Ks"
    using d keys by (simp add: keys_map_set)
  have dist': "distinct (srt @ ?q')" using dist nin by auto
  have sub': "set (srt @ ?q') \<subseteq> set Ks" using sub d by auto
  have deg': "get_degree ?deg' h = int (indeg_rem E (set srt) h + count_list ds h)"
    if "h \<in> set Ks" for h
  proof (cases "h = d")
    case True
    then show ?thesis by (simp add: get_degree_map_set)
  next
    case False
    with deg [OF that] show ?thesis by (simp add: get_degree_map_set)
  qed
  have mem': "h \<in> set (srt @ ?q') \<longleftrightarrow> indeg_rem E (set srt) h + count_list ds h = 0"
    if "h \<in> set Ks" for h
  proof (cases "h = d")
    case True
    with nin show ?thesis by auto
  next
    case False
    with mem [OF that] show ?thesis by auto
  qed
  show ?thesis
    unfolding r relax_inv_def fst_conv snd_conv
    by (intro conjI ballI) (rule k' ds dist' sub' | erule deg' mem')+
qed

lemma fold_relax_inv:
  "relax_inv E Ks srt ds deg q \<Longrightarrow>
   relax_inv E Ks srt [] (fst (fold relax ds (deg, q))) (snd (fold relax ds (deg, q)))"
proof (induction ds arbitrary: deg q)
  case Nil
  then show ?case by simp
next
  case (Cons d ds)
  from relax_step [OF Cons.prems] Cons.IH
  show ?case by (cases "relax d (deg, q)") auto
qed

definition kahn_inv ::
  "(string \<times> string) list \<Rightarrow> string list \<Rightarrow> (string, string list) jsmap \<Rightarrow>
   string list \<Rightarrow> string list \<Rightarrow> (string, int) jsmap \<Rightarrow> bool" where
  "kahn_inv E Ks adj q srt deg =
    (distinct Ks \<and> (\<forall>e\<in>set E. fst e \<in> set Ks \<and> snd e \<in> set Ks) \<and>
     (\<forall>d. get_list adj d = map snd (filter (\<lambda>e. fst e = d) E)) \<and>
     relax_inv E Ks srt [] deg q \<and> topo E srt)"

lemma kahn_step:
  assumes "kahn_inv E Ks adj (c # q) srt deg"
  shows "kahn_inv E Ks adj (snd (fold relax (get_list adj c) (deg, q))) (srt @ [c])
           (fst (fold relax (get_list adj c) (deg, q)))"
proof -
  let ?ds = "get_list adj c"
  from assms have ri: "relax_inv E Ks srt [] deg (c # q)" and tp: "topo E srt"
    and adj: "?ds = map snd (filter (\<lambda>e. fst e = c) E)"
    and E: "\<forall>e\<in>set E. fst e \<in> set Ks \<and> snd e \<in> set Ks"
    by (simp_all add: kahn_inv_def)
  from ri have cK: "c \<in> set Ks" and cn: "c \<notin> set srt" and dist: "distinct (srt @ c # q)"
    and sub: "set (srt @ c # q) \<subseteq> set Ks"
    by (simp_all add: relax_inv_def)
  have split: "\<And>h. indeg_rem E (set srt) h = indeg_rem E (insert c (set srt)) h + count_list ?ds h"
    using indeg_rem_insert [OF cn, of E] by (simp add: adj)
  from ri cK have c0: "indeg_rem E (set srt) c = 0" by (auto simp: relax_inv_def)
  have dsK: "set ?ds \<subseteq> set Ks" using E by (auto simp: adj)
  have "relax_inv E Ks (srt @ [c]) ?ds deg q"
    unfolding relax_inv_def
  proof (intro conjI ballI)
    show "map_keys deg = Ks" using ri by (simp add: relax_inv_def)
    show "set ?ds \<subseteq> set Ks" by (rule dsK)
    show "distinct ((srt @ [c]) @ q)" using dist by simp
    show "set ((srt @ [c]) @ q) \<subseteq> set Ks" using sub by simp
  next
    fix h assume "h \<in> set Ks"
    with ri show "get_degree deg h = int (indeg_rem E (set (srt @ [c])) h + count_list ?ds h)"
      by (simp add: relax_inv_def split)
  next
    fix h assume "h \<in> set Ks"
    with ri have "h \<in> set (srt @ c # q) \<longleftrightarrow> indeg_rem E (set srt) h = 0"
      by (simp add: relax_inv_def)
    then show "h \<in> set ((srt @ [c]) @ q) \<longleftrightarrow>
               indeg_rem E (set (srt @ [c])) h + count_list ?ds h = 0"
      by (simp add: split)
  qed
  from fold_relax_inv [OF this]
  have "relax_inv E Ks (srt @ [c]) [] (fst (fold relax ?ds (deg, q))) (snd (fold relax ?ds (deg, q)))" .
  moreover from c0 have "\<forall>d. (d, c) \<in> set E \<longrightarrow> d \<in> set srt" by (simp add: indeg_rem_zero)
  with tp have "topo E (srt @ [c])" by (rule topo_snoc)
  ultimately show ?thesis using assms by (simp add: kahn_inv_def)
qed

lemma kahn_loop_inv:
  "kahn_inv E Ks adj q srt deg \<Longrightarrow>
   kahn_inv E Ks adj [] (fst (kahn_loop adj q srt deg)) (snd (kahn_loop adj q srt deg))"
proof (induction adj q srt deg rule: kahn_loop.induct)
  case (1 adjList sorted_h inDegree)
  then show ?case by simp
next
  case (2 adjList current queue sorted_h inDegree)
  obtain deg' q' where f: "fold relax (get_list adjList current) (inDegree, queue) = (deg', q')"
    by (cases "fold relax (get_list adjList current) (inDegree, queue)")
  from kahn_step [OF "2.prems"] f
  have "kahn_inv E Ks adjList q' (sorted_h @ [current]) deg'" by simp
  from "2.IH" [OF f [symmetric] this] f show ?case by simp
qed

lemma map_get_distinct:
  "distinct (map fst m) \<Longrightarrow> (k, v) \<in> set m \<longleftrightarrow> map_get m k = Some v"
  by (induction m) (force simp: image_iff split: if_splits)+

lemma seed_queue_mem:
  assumes "distinct (map_keys deg)" "h \<in> set (map_keys deg)"
  shows "h \<in> set (seed_queue deg) \<longleftrightarrow> get_degree deg h = 0"
proof -
  from assms(2) obtain v where v: "map_get deg h = Some v"
    using map_get_None [of deg h] by (auto simp: map_keys_def)
  have "h \<in> set (seed_queue deg) \<longleftrightarrow> (h, 0) \<in> set deg"
    by (force simp: seed_queue_def)
  also have "\<dots> \<longleftrightarrow> map_get deg h = Some 0"
    using assms(1) by (simp add: map_get_distinct map_keys_def)
  finally show ?thesis using v by (simp add: get_degree_def)
qed

lemma seed_queue_distinct: "distinct (map_keys deg) \<Longrightarrow> distinct (seed_queue deg)"
  by (simp add: seed_queue_def map_keys_def distinct_map_filter)

lemma seed_queue_subset: "set (seed_queue deg) \<subseteq> set (map_keys deg)"
  by (auto simp: seed_queue_def map_keys_def)

lemma script_edges_ends:
  "(d, h) \<in> set (script_edges K script) \<Longrightarrow> d \<in> K \<and> truthy (handle script) = Some h"
  by (auto simp: script_edges_def List.map_filter_def split: option.splits if_splits)

lemma handles_of_mem:
  "h \<in> set (handles_of scripts) \<longleftrightarrow> (\<exists>script\<in>set scripts. truthy (handle script) = Some h)"
  by (force simp: handles_of_def List.map_filter_def)

lemma dep_edges_ends:
  assumes "(d, h) \<in> set (dep_edges scripts)"
  shows "d \<in> set (handles_of scripts) \<and> h \<in> set (handles_of scripts)"
proof -
  from assms obtain script where s: "script \<in> set scripts"
    and e: "(d, h) \<in> set (script_edges (set (handles_of scripts)) script)"
    by (auto simp: dep_edges_def)
  from script_edges_ends [OF e] s show ?thesis by (auto simp: handles_of_mem)
qed

lemma first_handles_set: "set (first_handles [] hs) = set hs"
  using first_handles_props [of "[]" hs] by simp

lemma first_handles_distinct: "distinct (first_handles [] hs)"
  using first_handles_props [of "[]" hs] by simp

lemma kahn_initial:
  assumes "graph_inv Ks E (adj, deg)" "\<forall>e\<in>set E. fst e \<in> set Ks \<and> snd e \<in> set Ks"
  shows "kahn_inv E Ks adj (seed_queue deg) [] deg"
proof -
  from assms(1) have keys: "map_keys deg = Ks" and dist: "distinct Ks"
    and adj: "\<forall>d. get_list adj d = map snd (filter (\<lambda>e. fst e = d) E)"
    and deg: "\<And>h. get_degree deg h = int (length (filter (\<lambda>e. snd e = h) E))"
    by (simp_all add: graph_inv_def)
  have ir: "\<And>h. indeg_rem E {} h = length (filter (\<lambda>e. snd e = h) E)"
    by (simp add: indeg_rem_def)
  have "relax_inv E Ks [] [] deg (seed_queue deg)"
    unfolding relax_inv_def
  proof (intro conjI ballI)
    show "map_keys deg = Ks" by (rule keys)
    show "set [] \<subseteq> set Ks" by simp
    show "distinct ([] @ seed_queue deg)" using seed_queue_distinct [of deg] keys dist by simp
    show "set ([] @ seed_queue deg) \<subseteq> set Ks" using seed_queue_subset [of deg] keys by simp
  next
    fix h assume "h \<in> set Ks"
    show "get_degree deg h = int (indeg_rem E (set []) h + count_list [] h)"
      by (simp add: deg ir)
  next
    fix h assume h: "h \<in> set Ks"
    have "h \<in> set (seed_queue deg) \<longleftrightarrow> get_degree deg h = 0"
      by (rule seed_queue_mem) (simp_all add: keys dist h)
    then show "h \<in> set ([] @ seed_queue deg) \<longleftrightarrow> indeg_rem E (set []) h + count_list [] h = 0"
      by (simp add: deg ir)
  qed
  with assms(2) adj dist show ?thesis by (simp add: kahn_inv_def topo_def)
qed

definition kahn_result :: "EnqueuedScript list \<Rightarrow> string list \<Rightarrow> bool" where
  "kahn_result scripts srt =
    (distinct srt \<and> set srt \<subseteq> set (handles_of scripts) \<and> topo (dep_edges scripts) srt \<and>
     (\<forall>h\<in>set (handles_of scripts).
        h \<in> set srt \<longleftrightarrow> (\<forall>d. (d, h) \<in> set (dep_edges scripts) \<longrightarrow> d \<in> set srt)))"

lemma kahn_sorted_result: "kahn_result scripts (kahn_sorted scripts)"
proof -
  let ?Ks = "first_handles [] (handles_of scripts)"
  let ?E = "dep_edges scripts"
  obtain adj deg where g: "build_graph (build_scriptMap scripts) scripts (init_graph scripts) = (adj, deg)"
    by (cases "build_graph (build_scriptMap scripts) scripts (init_graph scripts)")
  have ks: "kahn_sorted scripts = fst (kahn_loop adj (seed_queue deg) [] deg)"
    by (simp add: kahn_sorted_def g)
  have gi: "graph_inv ?Ks ?E (adj, deg)" using graph_built [of scripts] by (simp add: g)
  have ends: "\<forall>e\<in>set ?E. fst e \<in> set ?Ks \<and> snd e \<in> set ?Ks"
    using dep_edges_ends [of _ _ scripts] by (auto simp: first_handles_set)
  from kahn_loop_inv [OF kahn_initial [OF gi ends]]
  have "kahn_inv ?E ?Ks adj [] (kahn_sorted scripts) (snd (kahn_loop adj (seed_queue deg) [] deg))"
    by (simp add: ks)
  then show ?thesis
    by (simp add: kahn_inv_def relax_inv_def kahn_result_def first_handles_set indeg_rem_zero)
qed

lemma kahn_complete:
  assumes "kahn_result scripts srt" "acyclic (set (dep_edges scripts))"
  shows "set srt = set (handles_of scripts)"
proof (rule ccontr)
  let ?E = "set (dep_edges scripts)"
  let ?S = "set (handles_of scripts) - set srt"
  assume "set srt \<noteq> set (handles_of scripts)"
  with assms(1) have ne: "?S \<noteq> {}" by (auto simp: kahn_result_def)
  have "wf ?E" using assms(2) by (simp add: finite_acyclic_wf)
  then obtain z where z: "z \<in> ?S" and zmin: "\<And>y. (y, z) \<in> ?E \<Longrightarrow> y \<notin> ?S"
    using ne by (metis wfE_min ex_in_conv)
  have "\<forall>d. (d, z) \<in> ?E \<longrightarrow> d \<in> set srt"
  proof (intro allI impI)
    fix d assume e: "(d, z) \<in> ?E"
    from dep_edges_ends [OF e] zmin [OF e] show "d \<in> set srt" by simp
  qed
  with assms(1) z have "z \<in> set srt" unfolding kahn_result_def by blast
  with z show False by simp
qed

lemma append_remaining_eq: "append_remaining scripts srt = first_handles srt (handles_of scripts)"
  unfolding append_remaining_def
proof (induction scripts arbitrary: srt)
  case Nil
  then show ?case by (simp add: handles_of_def List.map_filter_simps)
next
  case (Cons s ss)
  then show ?case by (cases "truthy (handle s)") (simp_all add: handles_of_Cons)
qed

lemma sort_handles_perm:
  "distinct (sort_handles scripts) \<and> set (sort_handles scripts) = set (handles_of scripts)"
proof -
  let ?srt = "kahn_sorted scripts"
  have kr: "distinct ?srt" "set ?srt \<subseteq> set (handles_of scripts)"
    using kahn_sorted_result [of scripts] by (simp_all add: kahn_result_def)
  show ?thesis
  proof (cases "length ?srt \<noteq> length scripts")
    case True
    with kr first_handles_props [of ?srt "handles_of scripts"] show ?thesis
      by (auto simp: sort_handles_def append_remaining_eq)
  next
    case False
    have "card (set (handles_of scripts)) \<le> length (handles_of scripts)" by (rule card_length)
    also have "\<dots> \<le> length scripts" by (simp add: handles_of_def List.map_filter_def)
    also have "\<dots> = card (set ?srt)" using False kr(1) by (simp add: distinct_card)
    finally have "set ?srt = set (handles_of scripts)"
      using kr(2) by (simp add: card_seteq)
    with False kr show ?thesis by (simp add: sort_handles_def)
  qed
qed

lemma scriptMap_fold_get:
  "map_get (fold (\<lambda>script m. case truthy (handle script) of None \<Rightarrow> m
                      | Some h \<Rightarrow> map_set m h script) scripts m0) h
   = (case filter (\<lambda>s. truthy (handle s) = Some h) scripts of
        [] \<Rightarrow> map_get m0 h | x # xs \<Rightarrow> Some (last (x # xs)))"
proof (induction scripts arbitrary: m0)
  case Nil
  then show ?case by simp
next
  case (Cons s ss)
  show ?case
  proof (cases "truthy (handle s)")
    case None
    then show ?thesis by (simp add: Cons.IH)
  next
    case (Some h')
    then show ?thesis
      by (auto simp: Cons.IH map_get_map_set split: list.splits)
  qed
qed

lemma scriptMap_get:
  assumes "h \<in> set (handles_of scripts)"
  shows "\<exists>s. map_get (build_scriptMap scripts) h = Some s \<and> s \<in> set scripts \<and>
             truthy (handle s) = Some h"
proof -
  let ?f = "filter (\<lambda>s. truthy (handle s) = Some h) scripts"
  from assms have ne: "?f \<noteq> []" by (auto simp: handles_of_mem filter_empty_conv)
  then have "map_get (build_scriptMap scripts) h = Some (last ?f)"
    by (cases ?f) (simp_all add: build_scriptMap_def scriptMap_fold_get)
  moreover from ne have "last ?f \<in> set ?f" by (rule last_in_set)
  ultimately show ?thesis by auto
qed

text \<open>The first part of the output: the sorted handles mapped back to descriptors.\<close>

definition sorted_scripts :: "EnqueuedScript list \<Rightarrow> EnqueuedScript list" where
  "sorted_scripts scripts =
     List.map_filter (map_get (build_scriptMap scripts)) (sort_handles scripts)"

lemma map_filter_all_Some:
  "(\<forall>x\<in>set xs. f x \<noteq> None) \<Longrightarrow> List.map_filter f xs = map (the \<circ> f) xs"
  by (simp add: List.map_filter_def)

lemma sorted_scripts_nth:
  "length (sorted_scripts scripts) = length (sort_handles scripts) \<and>
   (\<forall>i<length (sort_handles scripts).
      sorted_scripts scripts ! i \<in> set scripts \<and>
      truthy (handle (sorted_scripts scripts ! i)) = Some (sort_handles scripts ! i))"
proof -
  let ?M = "build_scriptMap scripts" and ?sh = "sort_handles scripts"
  have sub: "set ?sh = set (handles_of scripts)" using sort_handles_perm by simp
  have all: "\<forall>h\<in>set ?sh. map_get ?M h \<noteq> None"
    using scriptMap_get [of _ scripts] sub by auto
  have eq: "sorted_scripts scripts = map (the \<circ> map_get ?M) ?sh"
    unfolding sorted_scripts_def by (rule map_filter_all_Some [OF all])
  show ?thesis
  proof (intro conjI allI impI)
    show "length (sorted_scripts scripts) = length ?sh" by (simp add: eq)
  next
    fix i assume i: "i < length ?sh"
    then have "?sh ! i \<in> set (handles_of scripts)" using sub nth_mem by blast
    from scriptMap_get [OF this] i
    show "sorted_scripts scripts ! i \<in> set scripts" 
      and "truthy (handle (sorted_scripts scripts ! i)) = Some (?sh ! i)"
      by (auto simp: eq)
  qed
qed

lemma sort_output:
  "sortScriptsByDependencies scripts =
     sorted_scripts scripts @ filter (\<lambda>script. truthy (handle script) = None) scripts"
proof (cases "scripts = []")
  case True
  then show ?thesis
    by (simp add: sortScriptsByDependencies_def sorted_scripts_def sort_handles_def
        kahn_sorted_def build_scriptMap_def init_graph_def build_graph_def seed_queue_def
        List.map_filter_simps)
next
  case False
  then show ?thesis by (simp add: sortScriptsByDependencies_def sorted_scripts_def)
qed

lemma output_handle_index:
  assumes "i < length (sortScriptsByDependencies scripts)"
  shows "truthy (handle (sortScriptsByDependencies scripts ! i)) = Some h \<longleftrightarrow>
         i < length (sort_handles scripts) \<and> sort_handles scripts ! i = h"
proof (cases "i < length (sort_handles scripts)")
  case True
  with sorted_scripts_nth [of scripts] show ?thesis
    by (auto simp: sort_output nth_append)
next
  case False
  let ?nh = "filter (\<lambda>script. truthy (handle script) = None) scripts"
  from False assms sorted_scripts_nth [of scripts]
  have "sortScriptsByDependencies scripts ! i = ?nh ! (i - length (sort_handles scripts))"
    and "i - length (sort_handles scripts) < length ?nh"
    by (auto simp: sort_output nth_append)
  then have "sortScriptsByDependencies scripts ! i \<in> set ?nh" by (metis nth_mem)
  then have "truthy (handle (sortScriptsByDependencies scripts ! i)) = None" by simp
  with False show ?thesis by simp
qed

subsection \<open>Dependencies come first\<close>

text \<open>
  Claim C1. \<open>dep_edges scripts\<close> are the edges (dependency, dependent) between handles
  that are both present in the input. When these edges are acyclic, the output of
  \<open>sortScriptsByDependencies\<close> holds, for every edge, a descriptor with the
  dependency's handle at an earlier index than a descriptor with the dependent's handle,
  and no descriptor with the dependent's handle stands before one with the dependency's.
\<close>

theorem sort_dependency_first:
  assumes "acyclic (set (dep_edges scripts))" and "(d, h) \<in> set (dep_edges scripts)"
  shows "(\<exists>i j. i < j \<and> j < length (sortScriptsByDependencies scripts) \<and>
            truthy (handle (sortScriptsByDependencies scripts ! i)) = Some d \<and>
            truthy (handle (sortScriptsByDependencies scripts ! j)) = Some h) \<and>
         (\<forall>i j. i < length (sortScriptsByDependencies scripts) \<and>
            j < length (sortScriptsByDependencies scripts) \<and>
            truthy (handle (sortScriptsByDependencies scripts ! i)) = Some d \<and>
            truthy (handle (sortScriptsByDependencies scripts ! j)) = Some h \<longrightarrow> i < j)"
proof -
  let ?out = "sortScriptsByDependencies scripts"
  let ?srt = "kahn_sorted scripts" and ?sh = "sort_handles scripts"
  have kr: "kahn_result scripts ?srt" by (rule kahn_sorted_result)
  from kahn_complete [OF kr assms(1)] have full: "set ?srt = set (handles_of scripts)" .
  have "append_remaining scripts ?srt = ?srt"
  proof -
    have "\<And>hs acc. set hs \<subseteq> set acc \<Longrightarrow> first_handles acc hs = acc"
    proof -
      fix hs :: "string list" and acc
      show "set hs \<subseteq> set acc \<Longrightarrow> first_handles acc hs = acc"
        by (induction hs arbitrary: acc) auto
    qed
    then show ?thesis using full by (simp add: append_remaining_eq)
  qed
  then have sh: "?sh = ?srt" by (simp add: sort_handles_def Let_def)
  from kr have tp: "topo (dep_edges scripts) ?sh" and dist: "distinct ?sh"
    by (simp_all add: kahn_result_def sh)
  from dep_edges_ends [OF assms(2)] full have "h \<in> set ?sh" by (simp add: sh)
  then obtain j where j: "j < length ?sh" "?sh ! j = h" by (auto simp: in_set_conv_nth)
  with tp assms(2) have "d \<in> set (take j ?sh)" by (auto simp: topo_def)
  then obtain i where i: "i < j" "?sh ! i = d"
    using j(1) by (auto simp: in_set_conv_nth)
  have len: "length ?sh \<le> length ?out"
    using sorted_scripts_nth [of scripts] by (simp add: sort_output)
  have idx: "\<And>k x. k < length ?out \<Longrightarrow>
               truthy (handle (?out ! k)) = Some x \<longleftrightarrow> k < length ?sh \<and> ?sh ! k = x"
    by (rule output_handle_index)
  have ex: "\<exists>i j. i < j \<and> j < length ?out \<and> truthy (handle (?out ! i)) = Some d \<and>
              truthy (handle (?out ! j)) = Some h"
  proof (intro exI conjI)
    show "i < j" by (rule i(1))
    show "j < length ?out" using j(1) len by simp
    show "truthy (handle (?out ! i)) = Some d" using i j(1) len by (simp add: idx)
    show "truthy (handle (?out ! j)) = Some h" using j len by (simp add: idx)
  qed
  have un: "\<forall>i' j'. i' < length ?out \<and> j' < length ?out \<and>
              truthy (handle (?out ! i')) = Some d \<and>
              truthy (handle (?out ! j')) = Some h \<longrightarrow> i' < j'"
  proof (intro allI impI)
    fix i' j'
    assume a: "i' < length ?out \<and> j' < length ?out \<and>
               truthy (handle (?out ! i')) = Some d \<and> truthy (handle (?out ! j')) = Some h"
    then have i': "i' < length ?sh" "?sh ! i' = d" and j': "j' < length ?sh" "?sh ! j' = h"
      using idx by blast+
    from i j(1) have il: "i < length ?sh" by simp
    from i' i(2) have "?sh ! i' = ?sh ! i" by simp
    with dist i'(1) il have "i' = i" by (simp add: nth_eq_iff_index_eq)
    moreover from j' j(2) have "?sh ! j' = ?sh ! j" by simp
    with dist j'(1) j(1) have "j' = j" by (simp add: nth_eq_iff_index_eq)
    ultimately show "i' < j'" using i(1) by simp
  qed
  from ex un show ?thesis by blast
qed

subsection \<open>The output is a permutation\<close>

text \<open>
  Claim C3. When the present handles of the input are pairwise different, the output of
  \<open>sortScriptsByDependencies\<close> has the same descriptors with the same multiplicities
  as the input, hence the same length, and it ends with the descriptors without a handle
  in their input order; every descriptor before them has a handle.
\<close>

theorem sort_is_permutation:
  assumes "distinct (handles_of scripts)"
  shows "mset (sortScriptsByDependencies scripts) = mset scripts \<and>
         length (sortScriptsByDependencies scripts) = length scripts \<and>
         (\<exists>front. sortScriptsByDependencies scripts =
                     front @ filter (\<lambda>script. truthy (handle script) = None) scripts \<and>
                   (\<forall>script\<in>set front. truthy (handle script) \<noteq> None))"
proof -
  let ?out = "sortScriptsByDependencies scripts"
  let ?M = "build_scriptMap scripts" and ?sh = "sort_handles scripts"
  let ?has = "\<lambda>script. truthy (handle script) \<noteq> None"
  have perm: "distinct ?sh" "set ?sh = set (handles_of scripts)"
    using sort_handles_perm [of scripts] by simp_all
  have all: "\<forall>h\<in>set ?sh. map_get ?M h \<noteq> None"
    using scriptMap_get [of _ scripts] perm(2) by auto
  have eq: "sorted_scripts scripts = map (the \<circ> map_get ?M) ?sh"
    unfolding sorted_scripts_def by (rule map_filter_all_Some [OF all])
  have ms: "mset ?sh = mset (handles_of scripts)"
    using perm assms by (simp add: set_eq_iff_mset_eq_distinct)
  have ho: "handles_of scripts = map (the \<circ> truthy \<circ> handle) (filter ?has scripts)"
    by (simp add: handles_of_def List.map_filter_def comp_def)
  have inv_get: "the (map_get ?M (the (truthy (handle s)))) = s"
    if "s \<in> set scripts" and "truthy (handle s) \<noteq> None" for s
  proof -
    note s = that
    from s(2) obtain h where h: "truthy (handle s) = Some h" by auto
    with s(1) have "h \<in> set (handles_of scripts)" by (auto simp: handles_of_mem)
    from scriptMap_get [OF this] obtain s' where s': "map_get ?M h = Some s'"
      "s' \<in> set scripts" "truthy (handle s') = Some h" by auto
    have inj: "inj_on (the \<circ> truthy \<circ> handle) (set (filter ?has scripts))"
      using assms unfolding ho by (simp add: distinct_map)
    from s s' h have "s' = s"
      by (intro inj_onD [OF inj]) auto
    with s' h show ?thesis by simp
  qed
  have "map (the \<circ> map_get ?M) (handles_of scripts) = filter ?has scripts"
    unfolding ho map_map
    by (rule map_idI) (simp add: inv_get)
  then have "mset (sorted_scripts scripts) = mset (filter ?has scripts)"
    unfolding eq
    by (metis ms mset_map)
  then have m: "mset ?out = mset scripts"
    by (simp add: sort_output)
  have front: "\<forall>script\<in>set (sorted_scripts scripts). truthy (handle script) \<noteq> None"
    using sorted_scripts_nth [of scripts] by (auto simp: in_set_conv_nth)
  from m have "length ?out = length scripts" by (metis size_mset)
  with m front show ?thesis
    using sort_output [of scripts] by blast
qed

subsection \<open>Concrete descriptor sets\<close>

text \<open>
  The helper of the resolver's test suite: a descriptor with handle \<open>h\<close> that depends
  on the handles \<open>deps\<close>, and the suite's descriptor without a handle.
\<close>

definition createScript :: "string \<Rightarrow> string list \<Rightarrow> EnqueuedScript" where
  "createScript h deps =
     \<lparr>id_s = Some (''script-'' @ h), handle = Some h,
      src = Some (''https://example.com/'' @ h @ ''.js''),
      dependencies = Some (map (\<lambda>dep. Some \<lparr>ref_id = Some (''script-'' @ dep),
                                                 ref_handle = Some dep\<rparr>) deps),
      before = None, after = None, extraData = None, location = None, strategy = None\<rparr>"

definition scriptWithoutHandle :: EnqueuedScript where
  "scriptWithoutHandle =
     \<lparr>id_s = Some ''no-handle'', handle = None,
      src = Some ''https://example.com/no-handle.js'',
      dependencies = None,
      before = None, after = None, extraData = None, location = None, strategy = None\<rparr>"

lemma dep_edges_example:
  "dep_edges [createScript ''b'' [''a''], createScript ''a'' []] = [(''a'', ''b'')]"
  by code_simp

theorem sort_dependency_first_witness:
  "acyclic (set (dep_edges [createScript ''b'' [''a''], createScript ''a'' []])) \<and>
   (''a'', ''b'') \<in> set (dep_edges [createScript ''b'' [''a''], createScript ''a'' []]) \<and>
   (\<exists>i j. i < j \<and>
      j < length (sortScriptsByDependencies [createScript ''b'' [''a''], createScript ''a'' []]) \<and>
      truthy (handle (sortScriptsByDependencies
                        [createScript ''b'' [''a''], createScript ''a'' []] ! i)) = Some ''a'' \<and>
      truthy (handle (sortScriptsByDependencies
                        [createScript ''b'' [''a''], createScript ''a'' []] ! j)) = Some ''b'')"
proof -
  let ?W = "[createScript ''b'' [''a''], createScript ''a'' []]"
  have "acyclic ({} :: (string \<times> string) set)"
    by (simp add: acyclic_def)
  then have ac: "acyclic (set (dep_edges ?W))"
    by (simp add: dep_edges_example acyclic_insert)
  have e: "(''a'', ''b'') \<in> set (dep_edges ?W)"
    by (simp add: dep_edges_example)
  from sort_dependency_first [OF ac e] ac e show ?thesis by blast
qed

lemma handles_of_example:
  "handles_of [scriptWithoutHandle, createScript ''b'' [''a''], createScript ''a'' []]
   = [''b'', ''a'']"
  by code_simp

theorem sort_is_permutation_witness:
  "distinct (handles_of [scriptWithoutHandle, createScript ''b'' [''a''], createScript ''a'' []]) \<and>
   mset (sortScriptsByDependencies
           [scriptWithoutHandle, createScript ''b'' [''a''], createScript ''a'' []])
   = mset [scriptWithoutHandle, createScript ''b'' [''a''], createScript ''a'' []] \<and>
   length (sortScriptsByDependencies
           [scriptWithoutHandle, createScript ''b'' [''a''], createScript ''a'' []]) = 3"
proof -
  let ?W = "[scriptWithoutHandle, createScript ''b'' [''a''], createScript ''a'' []]"
  have d: "distinct (handles_of ?W)" by (simp add: handles_of_example)
  from sort_is_permutation [OF d] d show ?thesis by simp
qed

subsection \<open>The warning of the resolver\<close>

text \<open>
  Claim C6. The resolver compares the number of sorted handles with the number of
  descriptors, not with the number of indexed handles. On the input of the test suite's
  case for descriptors without handles, which has no dependency edge at all, it therefore
  raises the circular-dependency warning, with 2 expected and 1 sorted; the output is
  still the input.
\<close>

theorem sort_warns_without_cycle:
  "dep_edges [createScript ''with-handle'' [], scriptWithoutHandle] = [] \<and>
   sort_warns [createScript ''with-handle'' [], scriptWithoutHandle]
     = Some \<lparr>expected = 2, got = 1\<rparr> \<and>
   sortScriptsByDependencies [createScript ''with-handle'' [], scriptWithoutHandle]
     = [createScript ''with-handle'' [], scriptWithoutHandle]"
  by code_simp

section \<open>The sequential loaders\<close>

subsection \<open>URLs and the load target\<close>

text \<open>
  The platform's \<open>URL\<close> class is not code of the repository. The loaders read the
  \<open>origin\<close> and the \<open>pathname\<close> of a parsed URL; the parser is a parameter:
  \<open>None\<close> where \<open>new URL(s)\<close> throws.
\<close>

record URL =
  origin :: string
  pathname :: string
  search :: string
  hash :: string

type_synonym url_parser = "string \<Rightarrow> URL option"

definition extractPath :: "url_parser \<Rightarrow> string \<Rightarrow> string" where
  "extractPath parse url = (case parse url of Some urlObj \<Rightarrow> pathname urlObj | None \<Rightarrow> url)"

definition isExternalScript :: "url_parser \<Rightarrow> string \<Rightarrow> string \<Rightarrow> bool" where
  "isExternalScript parse scriptUrl backendUrl =
     (case parse scriptUrl of
        None \<Rightarrow> False
      | Some s \<Rightarrow> (case parse backendUrl of
                    None \<Rightarrow> False
                  | Some b \<Rightarrow> origin s \<noteq> origin b))"

text \<open>The regular expression \<open>/^\/wp-(?:includes|admin)\//\<close> tests a prefix.\<close>

definition isInternalRoute :: "string \<Rightarrow> bool" where
  "isInternalRoute path =
     (take 13 path = ''/wp-includes/'' \<or> take 10 path = ''/wp-admin/'')"

datatype phase = Head | Body

text \<open>
  The block \<open>Transform src URL\<close> of \<open>loadNextScript\<close>. The body loader loads a script
  of another origin than the backend directly; the head loader has no such test.
  \<open>backendUrl\<close> is \<open>None\<close> when the backend origin could not be fetched.
\<close>

definition proxied :: "url_parser \<Rightarrow> string \<Rightarrow> string \<Rightarrow> string" where
  "proxied parse instance s =
     (let path = extractPath parse s
      in if isInternalRoute path
         then ''/atx/'' @ instance @ ''/wp-internal-assets'' @ path
         else ''/atx/'' @ instance @ ''/wp-assets'' @ path)"

definition transformSrc ::
  "phase \<Rightarrow> url_parser \<Rightarrow> string \<Rightarrow> string option \<Rightarrow> EnqueuedScript \<Rightarrow> string" where
  "transformSrc ph parse instance backendUrl script =
     (case truthy (src script) of
        None \<Rightarrow> []
      | Some s \<Rightarrow>
          (case ph of
             Head \<Rightarrow> proxied parse instance s
           | Body \<Rightarrow>
               (case truthy backendUrl of
                  Some b \<Rightarrow> if isExternalScript parse s b then s else proxied parse instance s
                | None \<Rightarrow> proxied parse instance s)))"

subsection \<open>The cache key\<close>

function show_nat :: "nat \<Rightarrow> string" where
  "show_nat n = (if n < 10 then [char_of (48 + n)]
                 else show_nat (n div 10) @ [char_of (48 + n mod 10)])"
  by pat_completeness auto
termination
  by (relation "measure id") auto

declare show_nat.simps [simp del]

text \<open>
  \<open>script.id || script.handle || script.src || `inline-${currentIndex}`\<close>, read after
  \<open>currentIndex++\<close>.
\<close>

definition cacheKey :: "EnqueuedScript \<Rightarrow> nat \<Rightarrow> string" where
  "cacheKey script currentIndex =
     (case truthy (id_s script) of
        Some i \<Rightarrow> i
      | None \<Rightarrow> (case truthy (handle script) of
                   Some h \<Rightarrow> h
                 | None \<Rightarrow> (case truthy (src script) of
                              Some s \<Rightarrow> s
                            | None \<Rightarrow> ''inline-'' @ show_nat currentIndex)))"

subsection \<open>Effects on the document\<close>

text \<open>
  What a loader does to the page, in order: the elements it appends, the calls into the
  compatibility layer, the error it logs and the completion calls. \<open>AppendChild\<close> is
  annotated with the index of the descriptor (in the sorted list) the element is for.

  The id of an element is printed from the descriptor's handle, for an inline element
  followed by \<open>-extra\<close>, \<open>-before\<close> or \<open>-after\<close>. An element keeps the handle as the
  descriptor has it, and the suffix: an inline element is its handle, its suffix and its
  text; an external one its handle, its \<open>src\<close>, and \<open>async\<close> and \<open>defer\<close> where the
  loader sets them.
\<close>

datatype element =
    InlineScript "string option" string string
  | ExternalScript "string option" string "bool option" "bool option"

datatype effect =
    AppendChild nat element
  | ProcessWcSettings string
  | InjectNextPressConfig string
  | ConsoleError "string option"
  | TriggerDOMContentLoaded
  | OnComplete

record pending =
  p_index :: nat
  p_cacheKey :: string
  p_afterScript :: "string option"
  p_handle :: "string option"

record loader_state =
  currentIndex :: nat
  LoadCache :: "string list"
  trace :: "effect list"
  in_flight :: "pending option"

definition cache_add :: "string list \<Rightarrow> string \<Rightarrow> string list" where
  "cache_add c k = (if k \<in> set c then c else c @ [k])"

fun join_space :: "string list \<Rightarrow> string" where
  "join_space [] = []"
| "join_space [x] = x"
| "join_space (x # y # ys) = x @ '' '' @ join_space (y # ys)"

text \<open>\<open>Array.isArray(c) ? c.join(' ') : c\<close>, and then the test \<open>if (text)\<close>.\<close>

definition inline_text :: "inline_code option \<Rightarrow> string option" where
  "inline_text c =
     (case c of
        None \<Rightarrow> None
      | Some (Single s) \<Rightarrow> truthy (Some s)
      | Some (Fragments fs) \<Rightarrow> truthy (Some (join_space fs)))"

record loader_env =
  parseURL :: url_parser
  replaceProxyPlaceholders :: "string \<Rightarrow> string \<Rightarrow> string"

text \<open>The elements and calls that precede the main element of one descriptor.\<close>

definition inject_inline ::
  "phase \<Rightarrow> loader_env \<Rightarrow> string \<Rightarrow> nat \<Rightarrow> EnqueuedScript \<Rightarrow> effect list" where
  "inject_inline ph env instance i script =
     (case truthy (extraData script) of
        None \<Rightarrow> []
      | Some x \<Rightarrow> [AppendChild i (InlineScript (handle script) ''-extra''
                      (case ph of Head \<Rightarrow> x
                                | Body \<Rightarrow> replaceProxyPlaceholders env x instance))])
     @ (case inline_text (before script) of
          None \<Rightarrow> []
        | Some b \<Rightarrow> AppendChild i (InlineScript (handle script) ''-before'' b)
                    # (if ph = Body \<and> handle script = Some ''wc-settings''
                       then [ProcessWcSettings instance] else []))
     @ (if ph = Head \<and> handle script = Some ''wp-api-fetch''
        then [InjectNextPressConfig instance] else [])"

definition main_element :: "phase \<Rightarrow> EnqueuedScript \<Rightarrow> string \<Rightarrow> element" where
  "main_element ph script src' =
     (case ph of
        Head \<Rightarrow> ExternalScript (handle script) src' (Some False) None
      | Body \<Rightarrow> ExternalScript (handle script) src'
                 (if strategy script = Some ASYNC then Some True else None)
                 (if strategy script = Some DEFER then Some True else None))"

function loadNextScript ::
  "phase \<Rightarrow> loader_env \<Rightarrow> string \<Rightarrow> string option \<Rightarrow> EnqueuedScript list \<Rightarrow>
   loader_state \<Rightarrow> loader_state" where
  "loadNextScript ph env instance backendUrl sortedScripts st =
     (if currentIndex st \<ge> length sortedScripts
      then st\<lparr>trace := trace st @ (if ph = Body then [TriggerDOMContentLoaded] else [])
                          @ [OnComplete]\<rparr>
      else
        let script = sortedScripts ! currentIndex st;
            i = currentIndex st;
            st1 = st\<lparr>currentIndex := currentIndex st + 1\<rparr>;
            key = cacheKey script (currentIndex st1)
        in if key \<in> set (LoadCache st1)
           then loadNextScript ph env instance backendUrl sortedScripts st1
           else
             let src' = transformSrc ph (parseURL env) instance backendUrl script;
                 afterScript = inline_text (after script);
                 st2 = st1\<lparr>trace := trace st1 @ inject_inline ph env instance i script\<rparr>
             in if src' \<noteq> []
                then st2\<lparr>trace := trace st2 @ [AppendChild i (main_element ph script src')],
                         in_flight := Some \<lparr>p_index = i, p_cacheKey = key,
                                             p_afterScript = afterScript,
                                             p_handle = handle script\<rparr>\<rparr>
                else loadNextScript ph env instance backendUrl sortedScripts
                       (st2\<lparr>LoadCache := cache_add (LoadCache st2) key\<rparr>))"
  by pat_completeness auto
termination
  by (relation "measure (\<lambda>(ph, env, instance, backendUrl, sortedScripts, st).
                  length sortedScripts - currentIndex st)") auto

text \<open>
  The terminal event of the element in flight. \<open>load\<close> runs \<open>onScriptLoad\<close>, \<open>error\<close>
  logs; both insert the cache key and call \<open>loadNextScript\<close>. Without an element in
  flight there is no listener and nothing happens.
\<close>

datatype terminal_event = Load | Error

definition fire ::
  "phase \<Rightarrow> loader_env \<Rightarrow> string \<Rightarrow> string option \<Rightarrow> EnqueuedScript list \<Rightarrow>
   terminal_event \<Rightarrow> loader_state \<Rightarrow> loader_state" where
  "fire ph env instance backendUrl sortedScripts ev st =
     (case in_flight st of
        None \<Rightarrow> st
      | Some p \<Rightarrow>
          let effects =
                (case ev of
                   Load \<Rightarrow> (case p_afterScript p of
                              None \<Rightarrow> []
                            | Some a \<Rightarrow> [AppendChild (p_index p)
                                           (InlineScript (p_handle p) ''-after'' a)])
                 | Error \<Rightarrow> [ConsoleError (p_handle p)])
          in loadNextScript ph env instance backendUrl sortedScripts
               (st\<lparr>trace := trace st @ effects,
                   LoadCache := cache_add (LoadCache st) (p_cacheKey p),
                   in_flight := None\<rparr>))"

subsection \<open>One phase as a state machine\<close>

declare loadNextScript.simps [simp del]

text \<open>
  A phase starts with the first call of \<open>loadNextScript\<close> (for the body loader: from
  either branch of the \<open>getBackendUrl\<close> promise) on the shared \<open>LoadCache\<close>; then
  the browser fires one terminal event for each element in flight.
\<close>

definition initial_state :: "string list \<Rightarrow> loader_state" where
  "initial_state c = \<lparr>currentIndex = 0, LoadCache = c, trace = [], in_flight = None\<rparr>"

definition run ::
  "phase \<Rightarrow> loader_env \<Rightarrow> string \<Rightarrow> string option \<Rightarrow> EnqueuedScript list \<Rightarrow>
   terminal_event list \<Rightarrow> loader_state \<Rightarrow> loader_state" where
  "run ph env instance backendUrl sortedScripts evs st =
     fold (fire ph env instance backendUrl sortedScripts) evs st"

text \<open>
  The cache key of the descriptor at position \<open>k\<close>; the descriptor is fresh when its key
  is neither in the cache the phase started with nor the key of an earlier descriptor.
\<close>

definition key_at :: "EnqueuedScript list \<Rightarrow> nat \<Rightarrow> string" where
  "key_at scripts k = cacheKey (scripts ! k) (k + 1)"

definition fresh :: "string list \<Rightarrow> EnqueuedScript list \<Rightarrow> nat \<Rightarrow> bool" where
  "fresh c scripts k =
     (key_at scripts k \<notin> set c \<and> (\<forall>k'<k. key_at scripts k' \<noteq> key_at scripts k))"

definition target_at ::
  "phase \<Rightarrow> loader_env \<Rightarrow> string \<Rightarrow> string option \<Rightarrow> EnqueuedScript list \<Rightarrow> nat \<Rightarrow> string" where
  "target_at ph env instance backendUrl scripts k =
     transformSrc ph (parseURL env) instance backendUrl (scripts ! k)"

definition attached_upto ::
  "phase \<Rightarrow> loader_env \<Rightarrow> string \<Rightarrow> string option \<Rightarrow> EnqueuedScript list \<Rightarrow>
   string list \<Rightarrow> nat \<Rightarrow> effect list \<Rightarrow> bool" where
  "attached_upto ph env instance backendUrl scripts c n tr =
     (\<forall>k<n. fresh c scripts k \<and> target_at ph env instance backendUrl scripts k \<noteq> [] \<longrightarrow>
        AppendChild k (main_element ph (scripts ! k)
                         (target_at ph env instance backendUrl scripts k)) \<in> set tr)"

definition owners_below :: "nat \<Rightarrow> effect list \<Rightarrow> bool" where
  "owners_below n tr = (\<forall>j e. AppendChild j e \<in> set tr \<longrightarrow> j < n)"

definition owners_fresh :: "string list \<Rightarrow> EnqueuedScript list \<Rightarrow> effect list \<Rightarrow> bool" where
  "owners_fresh c scripts tr = (\<forall>j e. AppendChild j e \<in> set tr \<longrightarrow> fresh c scripts j)"

definition idle_inv ::
  "phase \<Rightarrow> loader_env \<Rightarrow> string \<Rightarrow> string option \<Rightarrow> EnqueuedScript list \<Rightarrow>
   string list \<Rightarrow> loader_state \<Rightarrow> bool" where
  "idle_inv ph env instance backendUrl scripts c st =
     (in_flight st = None \<and> OnComplete \<notin> set (trace st) \<and>
      currentIndex st \<le> length scripts \<and>
      set (LoadCache st) = set c \<union> key_at scripts ` {..<currentIndex st} \<and>
      owners_below (currentIndex st) (trace st) \<and>
      owners_fresh c scripts (trace st) \<and>
      attached_upto ph env instance backendUrl scripts c (currentIndex st) (trace st))"

definition settled_inv ::
  "phase \<Rightarrow> loader_env \<Rightarrow> string \<Rightarrow> string option \<Rightarrow> EnqueuedScript list \<Rightarrow>
   string list \<Rightarrow> loader_state \<Rightarrow> bool" where
  "settled_inv ph env instance backendUrl scripts c st =
     (currentIndex st \<le> length scripts \<and>
      owners_below (currentIndex st) (trace st) \<and>
      owners_fresh c scripts (trace st) \<and>
      attached_upto ph env instance backendUrl scripts c (currentIndex st) (trace st) \<and>
      (case in_flight st of
         Some p \<Rightarrow> p_index p < length scripts \<and> currentIndex st = p_index p + 1 \<and>
                   fresh c scripts (p_index p) \<and>
                   p_cacheKey p = key_at scripts (p_index p) \<and>
                   set (LoadCache st) = set c \<union> key_at scripts ` {..<p_index p} \<and>
                   OnComplete \<notin> set (trace st)
       | None \<Rightarrow> currentIndex st = length scripts \<and>
                 count_list (trace st) OnComplete = 1 \<and>
                 set (LoadCache st) = set c \<union> key_at scripts ` {..<length scripts}))"

lemma owners_below_append:
  "owners_below n tr \<Longrightarrow> n \<le> m \<Longrightarrow> (\<forall>j e. AppendChild j e \<in> set es \<longrightarrow> j < m) \<Longrightarrow>
   owners_below m (tr @ es)"
  by (fastforce simp: owners_below_def)

lemma inject_inline_owner: "AppendChild j e \<in> set (inject_inline ph env inst i script) \<Longrightarrow> j = i"
  by (cases ph) (auto simp: inject_inline_def split: option.splits if_splits)

lemma inject_inline_no_complete: "OnComplete \<notin> set (inject_inline ph env inst i script)"
  by (cases ph) (auto simp: inject_inline_def split: option.splits if_splits)

lemma attached_upto_mono:
  "attached_upto ph env inst backendUrl scripts c n tr \<Longrightarrow>
   attached_upto ph env inst backendUrl scripts c n (tr @ es)"
  by (simp add: attached_upto_def)

lemma attached_upto_Suc:
  assumes "attached_upto ph env inst backendUrl scripts c n tr"
    and "fresh c scripts n \<and> target_at ph env inst backendUrl scripts n \<noteq> [] \<longrightarrow>
         AppendChild n (main_element ph (scripts ! n)
                          (target_at ph env inst backendUrl scripts n)) \<in> set tr"
  shows "attached_upto ph env inst backendUrl scripts c (Suc n) tr"
  using assms unfolding attached_upto_def by (auto simp: less_Suc_eq)

lemma keys_Suc: "key_at scripts ` {..<Suc n} = insert (key_at scripts n) (key_at scripts ` {..<n})"
  by (simp add: lessThan_Suc)

lemma is_fresh:
  assumes "key_at scripts n \<notin> set c \<union> key_at scripts ` {..<n}"
  shows "fresh c scripts n"
proof -
  have "key_at scripts k' \<noteq> key_at scripts n" if "k' < n" for k'
  proof
    assume "key_at scripts k' = key_at scripts n"
    then have "key_at scripts n \<in> key_at scripts ` {..<n}"
      using that by (metis imageI lessThan_iff)
    with assms show False by simp
  qed
  with assms show ?thesis by (simp add: fresh_def)
qed

lemma not_fresh:
  "key_at scripts n \<in> set c \<union> key_at scripts ` {..<n} \<Longrightarrow> \<not> fresh c scripts n"
  by (auto simp: fresh_def)

lemma count_no_complete: "OnComplete \<notin> set tr \<Longrightarrow> count_list tr OnComplete = 0"
  by (induction tr) auto

lemma loadNext_settles:
  "idle_inv ph env inst backendUrl scripts c st \<Longrightarrow>
   settled_inv ph env inst backendUrl scripts c
     (loadNextScript ph env inst backendUrl scripts st)"
proof (induction ph env inst backendUrl scripts st rule: loadNextScript.induct)
  case (1 ph env inst backendUrl sortedScripts st)
  note pre = "1.prems"
  let ?i = "currentIndex st"
  let ?script = "sortedScripts ! ?i"
  let ?st1 = "st\<lparr>currentIndex := ?i + 1\<rparr>"
  let ?key = "cacheKey ?script (?i + 1)"
  let ?src = "transformSrc ph (parseURL env) inst backendUrl ?script"
  let ?st2 = "?st1\<lparr>trace := trace ?st1 @ inject_inline ph env inst ?i ?script\<rparr>"
  have key: "?key = key_at sortedScripts ?i" by (simp add: key_at_def)
  have srcT: "?src = target_at ph env inst backendUrl sortedScripts ?i"
    by (simp add: target_at_def)
  from pre have inf: "in_flight st = None" and noc: "OnComplete \<notin> set (trace st)"
    and le: "?i \<le> length sortedScripts"
    and cache: "set (LoadCache st) = set c \<union> key_at sortedScripts ` {..<?i}"
    and own: "owners_below ?i (trace st)"
    and ofr: "owners_fresh c sortedScripts (trace st)"
    and att: "attached_upto ph env inst backendUrl sortedScripts c ?i (trace st)"
    by (simp_all add: idle_inv_def)
  show ?case
  proof (cases "length sortedScripts \<le> ?i")
    case True
    with le have eq: "?i = length sortedScripts" by simp
    have r: "loadNextScript ph env inst backendUrl sortedScripts st
             = st\<lparr>trace := trace st @ (if ph = Body then [TriggerDOMContentLoaded] else [])
                                 @ [OnComplete]\<rparr>"
      using True by (subst loadNextScript.simps) simp
    have "owners_below ?i (trace st @ (if ph = Body then [TriggerDOMContentLoaded] else [])
                                 @ [OnComplete])"
      using own by (auto simp: owners_below_def)
    moreover have "attached_upto ph env inst backendUrl sortedScripts c ?i
                     (trace st @ (if ph = Body then [TriggerDOMContentLoaded] else [])
                                 @ [OnComplete])"
      using att by (rule attached_upto_mono)
    moreover have "owners_fresh c sortedScripts
                     (trace st @ (if ph = Body then [TriggerDOMContentLoaded] else [])
                                 @ [OnComplete])"
      using ofr by (auto simp: owners_fresh_def)
    ultimately show ?thesis
      unfolding r settled_inv_def using inf cache eq count_no_complete [OF noc]
      by simp
  next
    case False
    then have lt: "?i < length sortedScripts" by simp
    show ?thesis
    proof (cases "?key \<in> set (LoadCache st)")
      case True
      have r: "loadNextScript ph env inst backendUrl sortedScripts st
               = loadNextScript ph env inst backendUrl sortedScripts ?st1"
        using False True by (subst loadNextScript.simps) (simp add: Let_def)
      have nf: "\<not> fresh c sortedScripts ?i"
        using True cache key by (intro not_fresh) simp
      have idle1: "idle_inv ph env inst backendUrl sortedScripts c ?st1"
        unfolding idle_inv_def
      proof (intro conjI)
        show "in_flight ?st1 = None" using inf by simp
        show "OnComplete \<notin> set (trace ?st1)" using noc by simp
        show "currentIndex ?st1 \<le> length sortedScripts" using lt by simp
        show "set (LoadCache ?st1) = set c \<union> key_at sortedScripts ` {..<currentIndex ?st1}"
          using True cache key by (auto simp: keys_Suc)
        show "owners_below (currentIndex ?st1) (trace ?st1)"
          using own by (auto simp: owners_below_def less_Suc_eq)
        show "owners_fresh c sortedScripts (trace ?st1)" using ofr by simp
        show "attached_upto ph env inst backendUrl sortedScripts c
                (currentIndex ?st1) (trace ?st1)"
          using attached_upto_Suc [OF att] nf by simp
      qed
      note ih = "1.IH"(1) [OF False refl refl refl refl, simplified]
      from ih idle1 True show ?thesis unfolding r by simp
    next
      case nc: False
      have own2: "owners_below (Suc ?i) (trace ?st2)"
        using own inject_inline_owner by (fastforce simp: owners_below_def less_Suc_eq)
      have noc2: "OnComplete \<notin> set (trace ?st2)"
        using noc inject_inline_no_complete by simp
      have fr: "fresh c sortedScripts ?i"
        using nc cache key by (intro is_fresh) simp
      have ofr2: "owners_fresh c sortedScripts (trace ?st2)"
        using ofr fr inject_inline_owner by (fastforce simp: owners_fresh_def)
      show ?thesis
      proof (cases "?src = []")
        case True
        let ?st3 = "?st2\<lparr>LoadCache := cache_add (LoadCache ?st2) ?key\<rparr>"
        have r: "loadNextScript ph env inst backendUrl sortedScripts st
                 = loadNextScript ph env inst backendUrl sortedScripts ?st3"
          using False nc True by (subst loadNextScript.simps) (simp add: Let_def)
        have idle3: "idle_inv ph env inst backendUrl sortedScripts c ?st3"
          unfolding idle_inv_def
        proof (intro conjI)
          show "in_flight ?st3 = None" using inf by simp
          show "OnComplete \<notin> set (trace ?st3)" using noc2 by simp
          show "currentIndex ?st3 \<le> length sortedScripts" using lt by simp
          show "set (LoadCache ?st3) = set c \<union> key_at sortedScripts ` {..<currentIndex ?st3}"
            using cache key by (auto simp: keys_Suc cache_add_def)
          show "owners_below (currentIndex ?st3) (trace ?st3)" using own2 by simp
          show "owners_fresh c sortedScripts (trace ?st3)" using ofr2 by simp
          have "attached_upto ph env inst backendUrl sortedScripts c ?i (trace ?st3)"
            using attached_upto_mono [OF att] by simp
          from attached_upto_Suc [OF this] True srcT
          show "attached_upto ph env inst backendUrl sortedScripts c
                  (currentIndex ?st3) (trace ?st3)" by simp
        qed
        note ih = "1.IH"(2) [OF False refl refl refl refl _ refl refl refl, simplified]
        from ih idle3 True nc show ?thesis unfolding r by simp
      next
        case ne: False
        let ?p = "\<lparr>p_index = ?i, p_cacheKey = ?key, p_afterScript = inline_text (after ?script),
                    p_handle = handle ?script\<rparr>"
        let ?r = "?st2\<lparr>trace := trace ?st2 @ [AppendChild ?i (main_element ph ?script ?src)],
                          in_flight := Some ?p\<rparr>"
        have r: "loadNextScript ph env inst backendUrl sortedScripts st = ?r"
          using False nc ne by (subst loadNextScript.simps) (simp add: Let_def)
        have "owners_below (Suc ?i) (trace ?r)"
          using own2 by (auto simp: owners_below_def)
        moreover have "owners_fresh c sortedScripts (trace ?r)"
          using ofr2 fr by (auto simp: owners_fresh_def)
        moreover have "attached_upto ph env inst backendUrl sortedScripts c (Suc ?i) (trace ?r)"
        proof (rule attached_upto_Suc)
          show "attached_upto ph env inst backendUrl sortedScripts c ?i (trace ?r)"
            using att by (simp add: attached_upto_def)
          show "fresh c sortedScripts ?i \<and> target_at ph env inst backendUrl sortedScripts ?i \<noteq> [] \<longrightarrow>
                AppendChild ?i (main_element ph (sortedScripts ! ?i)
                   (target_at ph env inst backendUrl sortedScripts ?i)) \<in> set (trace ?r)"
            by (simp add: srcT)
        qed
        ultimately show ?thesis
          unfolding r settled_inv_def using lt cache key noc2 fr by simp
      qed
    qed
  qed
qed

lemma loadNext_index:
  "in_flight st = None \<Longrightarrow>
   in_flight (loadNextScript ph env inst backendUrl scripts st) = Some q \<Longrightarrow>
   currentIndex st \<le> p_index q"
proof (induction ph env inst backendUrl scripts st rule: loadNextScript.induct)
  case (1 ph env inst backendUrl sortedScripts st)
  let ?i = "currentIndex st"
  let ?script = "sortedScripts ! ?i"
  let ?st1 = "st\<lparr>currentIndex := ?i + 1\<rparr>"
  let ?key = "cacheKey ?script (?i + 1)"
  let ?src = "transformSrc ph (parseURL env) inst backendUrl ?script"
  let ?st2 = "?st1\<lparr>trace := trace ?st1 @ inject_inline ph env inst ?i ?script\<rparr>"
  note inf = "1.prems"(1) and res = "1.prems"(2)
  show ?case
  proof (cases "length sortedScripts \<le> ?i")
    case True
    with res inf show ?thesis by (subst (asm) loadNextScript.simps) simp
  next
    case False
    show ?thesis
    proof (cases "?key \<in> set (LoadCache st)")
      case True
      have r: "loadNextScript ph env inst backendUrl sortedScripts st
               = loadNextScript ph env inst backendUrl sortedScripts ?st1"
        using False True by (subst loadNextScript.simps) (simp add: Let_def)
      note ih = "1.IH"(1) [OF False refl refl refl refl, simplified]
      from ih True inf res [unfolded r] show ?thesis by simp
    next
      case nc: False
      show ?thesis
      proof (cases "?src = []")
        case True
        let ?st3 = "?st2\<lparr>LoadCache := cache_add (LoadCache ?st2) ?key\<rparr>"
        have r: "loadNextScript ph env inst backendUrl sortedScripts st
                 = loadNextScript ph env inst backendUrl sortedScripts ?st3"
          using False nc True by (subst loadNextScript.simps) (simp add: Let_def)
        note ih = "1.IH"(2) [OF False refl refl refl refl _ refl refl refl, simplified]
        from ih True nc inf res [unfolded r] show ?thesis by simp
      next
        case ne: False
        from res False nc ne show ?thesis
          by (subst (asm) loadNextScript.simps) (auto simp: Let_def)
      qed
    qed
  qed
qed

lemma fire_settled:
  assumes "settled_inv ph env inst backendUrl scripts c st"
  shows "settled_inv ph env inst backendUrl scripts c (fire ph env inst backendUrl scripts ev st)"
proof (cases "in_flight st")
  case None
  with assms show ?thesis by (simp add: fire_def)
next
  case (Some p)
  let ?effects = "case ev of
                   Load \<Rightarrow> (case p_afterScript p of
                              None \<Rightarrow> []
                            | Some a \<Rightarrow> [AppendChild (p_index p)
                                           (InlineScript (p_handle p) ''-after'' a)])
                 | Error \<Rightarrow> [ConsoleError (p_handle p)]"
  let ?st' = "st\<lparr>trace := trace st @ ?effects,
                   LoadCache := cache_add (LoadCache st) (p_cacheKey p),
                   in_flight := None\<rparr>"
  from assms Some have le: "currentIndex st \<le> length scripts"
    and own: "owners_below (currentIndex st) (trace st)"
    and ofr: "owners_fresh c scripts (trace st)"
    and fr: "fresh c scripts (p_index p)"
    and att: "attached_upto ph env inst backendUrl scripts c (currentIndex st) (trace st)"
    and ci: "currentIndex st = p_index p + 1"
    and key: "p_cacheKey p = key_at scripts (p_index p)"
    and cache: "set (LoadCache st) = set c \<union> key_at scripts ` {..<p_index p}"
    and noc: "OnComplete \<notin> set (trace st)"
    by (auto simp: settled_inv_def)
  have eff: "\<forall>j e. AppendChild j e \<in> set ?effects \<longrightarrow> j < currentIndex st"
    using ci by (auto split: terminal_event.splits option.splits)
  have effc: "OnComplete \<notin> set ?effects"
    by (auto split: terminal_event.splits option.splits)
  have efff: "\<forall>j e. AppendChild j e \<in> set ?effects \<longrightarrow> fresh c scripts j"
    using fr by (auto split: terminal_event.splits option.splits)
  have "idle_inv ph env inst backendUrl scripts c ?st'"
    unfolding idle_inv_def
  proof (intro conjI)
    show "in_flight ?st' = None" by simp
    show "OnComplete \<notin> set (trace ?st')" using noc effc by simp
    show "currentIndex ?st' \<le> length scripts" using le by simp
    show "set (LoadCache ?st') = set c \<union> key_at scripts ` {..<currentIndex ?st'}"
      using cache key ci by (auto simp: keys_Suc cache_add_def)
    show "owners_below (currentIndex ?st') (trace ?st')"
      using owners_below_append [OF own order_refl eff] by simp
    show "owners_fresh c scripts (trace ?st')"
      using ofr efff unfolding owners_fresh_def by auto
    show "attached_upto ph env inst backendUrl scripts c (currentIndex ?st') (trace ?st')"
      using attached_upto_mono [OF att] by simp
  qed
  from loadNext_settles [OF this] Some show ?thesis
    by (simp add: fire_def Let_def)
qed

lemma fire_advances:
  assumes "settled_inv ph env inst backendUrl scripts c st" "in_flight st = Some p"
    "in_flight (fire ph env inst backendUrl scripts ev st) = Some q"
  shows "p_index p < p_index q"
proof -
  let ?effects = "case ev of
                   Load \<Rightarrow> (case p_afterScript p of
                              None \<Rightarrow> []
                            | Some a \<Rightarrow> [AppendChild (p_index p)
                                           (InlineScript (p_handle p) ''-after'' a)])
                 | Error \<Rightarrow> [ConsoleError (p_handle p)]"
  let ?st' = "st\<lparr>trace := trace st @ ?effects,
                   LoadCache := cache_add (LoadCache st) (p_cacheKey p),
                   in_flight := None\<rparr>"
  have f: "fire ph env inst backendUrl scripts ev st
           = loadNextScript ph env inst backendUrl scripts ?st'"
    using assms(2) by (simp add: fire_def Let_def)
  have "currentIndex ?st' \<le> p_index q"
    by (rule loadNext_index) (use assms(3) f in simp_all)
  moreover from assms(1,2) have "currentIndex st = p_index p + 1"
    by (simp add: settled_inv_def)
  ultimately show ?thesis by simp
qed

definition remaining :: "EnqueuedScript list \<Rightarrow> loader_state \<Rightarrow> nat" where
  "remaining scripts st =
     (case in_flight st of None \<Rightarrow> 0 | Some p \<Rightarrow> length scripts - p_index p)"

lemma fire_remaining:
  assumes "settled_inv ph env inst backendUrl scripts c st"
  shows "remaining scripts (fire ph env inst backendUrl scripts ev st) \<le> remaining scripts st - 1"
proof (cases "in_flight st")
  case None
  then show ?thesis by (simp add: fire_def remaining_def)
next
  case (Some p)
  show ?thesis
  proof (cases "in_flight (fire ph env inst backendUrl scripts ev st)")
    case None
    then show ?thesis by (simp add: remaining_def)
  next
    case (Some q)
    from fire_advances [OF assms \<open>in_flight st = Some p\<close> Some]
    show ?thesis using Some \<open>in_flight st = Some p\<close> by (simp add: remaining_def)
  qed
qed

lemma run_settled:
  "settled_inv ph env inst backendUrl scripts c st \<Longrightarrow>
   settled_inv ph env inst backendUrl scripts c (run ph env inst backendUrl scripts evs st) \<and>
   remaining scripts (run ph env inst backendUrl scripts evs st) \<le> remaining scripts st - length evs"
proof (induction evs arbitrary: st)
  case Nil
  then show ?case by (simp add: run_def)
next
  case (Cons ev evs)
  let ?st1 = "fire ph env inst backendUrl scripts ev st"
  have s1: "settled_inv ph env inst backendUrl scripts c ?st1"
    by (rule fire_settled [OF Cons.prems])
  have r1: "remaining scripts ?st1 \<le> remaining scripts st - 1"
    by (rule fire_remaining [OF Cons.prems])
  from Cons.IH [OF s1] have s2: "settled_inv ph env inst backendUrl scripts c
                                   (run ph env inst backendUrl scripts evs ?st1)"
    and r2: "remaining scripts (run ph env inst backendUrl scripts evs ?st1)
             \<le> remaining scripts ?st1 - length evs" by simp_all
  from r1 r2 have "remaining scripts (run ph env inst backendUrl scripts evs ?st1)
             \<le> remaining scripts st - length (ev # evs)" by simp
  with s2 show ?case by (simp add: run_def)
qed

lemma initial_idle: "idle_inv ph env inst backendUrl scripts c (initial_state c)"
  by (simp add: idle_inv_def initial_state_def owners_below_def owners_fresh_def attached_upto_def)

definition after_events ::
  "phase \<Rightarrow> loader_env \<Rightarrow> string \<Rightarrow> string option \<Rightarrow> EnqueuedScript list \<Rightarrow>
   string list \<Rightarrow> terminal_event list \<Rightarrow> loader_state" where
  "after_events ph env instance backendUrl sortedScripts c evs =
     run ph env instance backendUrl sortedScripts evs
       (loadNextScript ph env instance backendUrl sortedScripts (initial_state c))"













subsection \<open>Cache keys, load targets\<close>

text \<open>
  Claim C8, as amended. Every key a loader adds to its \<open>LoadCache\<close> is the key of one
  of its descriptors, taken from that descriptor in this order: its \<open>id\<close>; if that is
  absent or empty its \<open>handle\<close>; then its \<open>src\<close>; and only if all three are absent
  the key \<open>inline-N\<close>, where \<open>N\<close> is the descriptor's position counted from 1.
\<close>

theorem cache_keys:
  assumes "st = after_events ph env inst backendUrl scripts c evs"
    and "key \<in> set (LoadCache st)" and "key \<notin> set c"
  shows "\<exists>k<length scripts. key = cacheKey (scripts ! k) (k + 1) \<and>
           (truthy (id_s (scripts ! k)) = Some key \<or>
            truthy (id_s (scripts ! k)) = None \<and> truthy (handle (scripts ! k)) = Some key \<or>
            truthy (id_s (scripts ! k)) = None \<and> truthy (handle (scripts ! k)) = None \<and>
              truthy (src (scripts ! k)) = Some key \<or>
            truthy (id_s (scripts ! k)) = None \<and> truthy (handle (scripts ! k)) = None \<and>
              truthy (src (scripts ! k)) = None \<and> key = ''inline-'' @ show_nat (k + 1))"
proof -
  let ?st0 = "loadNextScript ph env inst backendUrl scripts (initial_state c)"
  have "settled_inv ph env inst backendUrl scripts c ?st0"
    by (rule loadNext_settles [OF initial_idle])
  from run_settled [OF this, of evs]
  have s: "settled_inv ph env inst backendUrl scripts c st"
    by (simp add: assms(1) after_events_def)
  have "\<exists>n\<le>length scripts. set (LoadCache st) = set c \<union> key_at scripts ` {..<n}"
  proof (cases "in_flight st")
    case None
    with s show ?thesis by (auto simp: settled_inv_def)
  next
    case (Some p)
    with s have "p_index p \<le> length scripts"
      "set (LoadCache st) = set c \<union> key_at scripts ` {..<p_index p}"
      by (auto simp: settled_inv_def)
    then show ?thesis by blast
  qed
  then obtain n where n: "n \<le> length scripts"
    "set (LoadCache st) = set c \<union> key_at scripts ` {..<n}" by blast
  with assms(2,3) have "key \<in> key_at scripts ` {..<n}" by simp
  then obtain k where "k < n" and k2: "key = key_at scripts k" by auto
  with n(1) have k1: "k < length scripts" by simp
  note k = k1 k2
  have "truthy (id_s (scripts ! k)) = Some key \<or>
            truthy (id_s (scripts ! k)) = None \<and> truthy (handle (scripts ! k)) = Some key \<or>
            truthy (id_s (scripts ! k)) = None \<and> truthy (handle (scripts ! k)) = None \<and>
              truthy (src (scripts ! k)) = Some key \<or>
            truthy (id_s (scripts ! k)) = None \<and> truthy (handle (scripts ! k)) = None \<and>
              truthy (src (scripts ! k)) = None \<and> key = ''inline-'' @ show_nat (k + 1)"
    unfolding k(2) key_at_def cacheKey_def by (simp split: option.splits)
  with k show ?thesis unfolding key_at_def by blast
qed

text \<open>
  Claim C9. For a descriptor whose \<open>src\<close> parses as a URL \<open>u\<close> and that goes through
  the proxy (always in the head loader; in the body loader unless the backend origin is
  known and differs from the script's), the load target is
  \<open>/atx/{instance}/wp-internal-assets\<close> followed by the pathname of \<open>u\<close> when the
  pathname starts with \<open>/wp-includes/\<close> or \<open>/wp-admin/\<close>, and
  \<open>/atx/{instance}/wp-assets\<close> followed by the pathname otherwise.
\<close>

theorem proxy_rewrite:
  assumes "truthy (src script) = Some s" and "parse s = Some u"
    and "ph = Head \<or> (\<forall>b. truthy backendUrl = Some b \<longrightarrow> \<not> isExternalScript parse s b)"
  shows "transformSrc ph parse inst backendUrl script =
           (if take 13 (pathname u) = ''/wp-includes/'' \<or> take 10 (pathname u) = ''/wp-admin/''
            then ''/atx/'' @ inst @ ''/wp-internal-assets'' @ pathname u
            else ''/atx/'' @ inst @ ''/wp-assets'' @ pathname u)"
proof -
  have p: "proxied parse inst s =
           (if take 13 (pathname u) = ''/wp-includes/'' \<or> take 10 (pathname u) = ''/wp-admin/''
            then ''/atx/'' @ inst @ ''/wp-internal-assets'' @ pathname u
            else ''/atx/'' @ inst @ ''/wp-assets'' @ pathname u)"
    using assms(2) by (simp add: proxied_def extractPath_def isInternalRoute_def Let_def)
  from assms(3) show ?thesis
  proof
    assume "ph = Head"
    with assms(1) p show ?thesis by (simp add: transformSrc_def)
  next
    assume ne: "\<forall>b. truthy backendUrl = Some b \<longrightarrow> \<not> isExternalScript parse s b"
    with assms(1) p show ?thesis
      by (cases ph; cases "truthy backendUrl") (simp_all add: transformSrc_def)
  qed
qed

text \<open>
  Claim C10. For a proxied descriptor whose \<open>src\<close> parses as the URL \<open>u\<close>, the load
  target is the proxy prefix followed by the pathname of \<open>u\<close> and nothing else: when
  \<open>u\<close> has a query string or a fragment, the target is not the prefix followed by
  pathname, query string and fragment, and every descriptor whose URL differs from \<open>u\<close>
  only in \<open>search\<close> and \<open>hash\<close> gets the very same target.
\<close>

theorem query_discarded:
  assumes "truthy (src script) = Some s" and "parse s = Some u"
    and "ph = Head \<or> (\<forall>b. truthy backendUrl = Some b \<longrightarrow> \<not> isExternalScript parse s b)"
  shows "transformSrc ph parse inst backendUrl script
         = ''/atx/'' @ inst
           @ (if isInternalRoute (pathname u) then ''/wp-internal-assets'' else ''/wp-assets'')
           @ pathname u \<and>
         (search u @ hash u \<noteq> [] \<longrightarrow>
            transformSrc ph parse inst backendUrl script
            \<noteq> ''/atx/'' @ inst
              @ (if isInternalRoute (pathname u) then ''/wp-internal-assets'' else ''/wp-assets'')
              @ pathname u @ search u @ hash u) \<and>
         (\<forall>script' s' q f.
            truthy (src script') = Some s' \<and> parse s' = Some (u\<lparr>search := q, hash := f\<rparr>) \<longrightarrow>
            transformSrc ph parse inst backendUrl script'
            = transformSrc ph parse inst backendUrl script)"
proof -
  let ?ns = "if isInternalRoute (pathname u) then ''/wp-internal-assets'' else ''/wp-assets''"
  have p: "proxied parse inst s = ''/atx/'' @ inst @ ?ns @ pathname u"
    using assms(2) by (simp add: proxied_def extractPath_def Let_def)
  have t: "transformSrc ph parse inst backendUrl script = proxied parse inst s"
    using assms(1,3) by (cases ph; cases "truthy backendUrl") (auto simp: transformSrc_def)
  have same: "transformSrc ph parse inst backendUrl script'
              = transformSrc ph parse inst backendUrl script"
    if s': "truthy (src script') = Some s'" and u': "parse s' = Some (u\<lparr>search := q, hash := f\<rparr>)"
    for script' s' q f
  proof -
    have e: "isExternalScript parse s' b = isExternalScript parse s b" for b
      using assms(2) u' by (simp add: isExternalScript_def split: option.splits)
    have "proxied parse inst s' = proxied parse inst s"
      using assms(2) u' by (simp add: proxied_def extractPath_def)
    with assms(1,3) s' e show ?thesis
      by (cases ph; cases "truthy backendUrl") (auto simp: transformSrc_def)
  qed
  from p t same show ?thesis by auto
qed

subsection \<open>Concrete runs\<close>

text \<open>
  The results of \<open>new URL(s)\<close> for the URLs of the examples below; no other string is
  used there.
\<close>

definition wp_urls :: url_parser where
  "wp_urls s =
     (if s = ''https://wp.example.com/wp-includes/js/x.js''
      then Some \<lparr>origin = ''https://wp.example.com'', pathname = ''/wp-includes/js/x.js'',
                 search = [], hash = []\<rparr>
      else if s = ''https://wp.example.com/wp-includes/js/x.js?ver=6.4''
      then Some \<lparr>origin = ''https://wp.example.com'', pathname = ''/wp-includes/js/x.js'',
                 search = ''?ver=6.4'', hash = []\<rparr>
      else if s = ''https://wp.example.com/wp-content/uploads/y.png''
      then Some \<lparr>origin = ''https://wp.example.com'', pathname = ''/wp-content/uploads/y.png'',
                 search = [], hash = []\<rparr>
      else if s = ''https://wp.example.com''
      then Some \<lparr>origin = ''https://wp.example.com'', pathname = ''/'',
                 search = [], hash = []\<rparr>
      else if s = ''https://example.com/a.js''
      then Some \<lparr>origin = ''https://example.com'', pathname = ''/a.js'',
                 search = [], hash = []\<rparr>
      else None)"

definition script_at :: "string \<Rightarrow> string \<Rightarrow> EnqueuedScript" where
  "script_at h s =
     \<lparr>id_s = None, handle = Some h, src = Some s, dependencies = None,
      before = None, after = None, extraData = None, location = Some FOOTER, strategy = None\<rparr>"

definition example_env :: loader_env where
  "example_env = \<lparr>parseURL = wp_urls, replaceProxyPlaceholders = (\<lambda>content instance. content)\<rparr>"






text \<open>
  The descriptors a phase loads: the component keeps those of its own location and sorts
  them. When none is left it completes at once, as \<open>loadNextScript\<close> does on the empty
  list.
\<close>

definition phase_scripts :: "phase \<Rightarrow> EnqueuedScript list \<Rightarrow> EnqueuedScript list" where
  "phase_scripts ph scripts =
     sortScriptsByDependencies
       (filter (\<lambda>script. location script = Some (case ph of Head \<Rightarrow> HEADER | Body \<Rightarrow> FOOTER))
          scripts)"

text \<open>A header script with id, handle and src, as the asset query delivers it.\<close>

definition header_a :: EnqueuedScript where
  "header_a =
     \<lparr>id_s = Some ''script-a'', handle = Some ''a'', src = Some ''https://example.com/a.js'',
      dependencies = Some [], before = None, after = None, extraData = None,
      location = Some HEADER, strategy = None\<rparr>"

text \<open>
  Claim C8 as stated fails: for a descriptor that has an \<open>id\<close>, the key is the
  \<open>id\<close> and not the handle. The head loader, given the header script above, attaches
  its element and, after the load event, holds the id in its \<open>LoadCache\<close>.
\<close>

theorem cache_key_is_id:
  "phase_scripts Head [header_a] = [header_a] \<and>
   handle header_a = Some ''a'' \<and> id_s header_a = Some ''script-a'' \<and>
   cacheKey header_a 1 = ''script-a'' \<and>
   trace (after_events Head example_env ''default'' None (phase_scripts Head [header_a]) [] [Load])
     = [AppendChild 0 (ExternalScript (Some ''a'') ''/atx/default/wp-assets/a.js'' (Some False) None),
        OnComplete] \<and>
   LoadCache (after_events Head example_env ''default'' None (phase_scripts Head [header_a]) [] [Load])
     = [''script-a'']"
  by code_simp

theorem cache_keys_witness:
  "''script-a'' \<in> set (LoadCache (after_events Head example_env ''default'' None
                                    (phase_scripts Head [header_a]) [] [Load])) \<and>
   ''script-a'' \<notin> set [] \<and>
   (\<exists>k<length (phase_scripts Head [header_a]).
      ''script-a'' = cacheKey (phase_scripts Head [header_a] ! k) (k + 1) \<and>
      truthy (id_s (phase_scripts Head [header_a] ! k)) = Some ''script-a'')"
proof -
  let ?S = "phase_scripts Head [header_a]"
  let ?st = "after_events Head example_env ''default'' None ?S [] [Load]"
  have S: "?S = [header_a]" by code_simp
  have m: "''script-a'' \<in> set (LoadCache ?st)" by code_simp
  have n: "''script-a'' \<notin> set ([] :: string list)" by simp
  from cache_keys [OF refl m n] obtain k where k: "k < length ?S"
    and e: "''script-a'' = cacheKey (?S ! k) (k + 1)" by blast
  from k S have k0: "k = 0" by simp
  have "truthy (id_s (?S ! 0)) = Some ''script-a''" by code_simp
  with k e k0 m n show ?thesis by auto
qed

theorem proxy_rewrite_witness:
  "truthy (src (script_at ''x'' ''https://wp.example.com/wp-includes/js/x.js''))
     = Some ''https://wp.example.com/wp-includes/js/x.js'' \<and>
   wp_urls ''https://wp.example.com/wp-includes/js/x.js''
     = Some \<lparr>origin = ''https://wp.example.com'', pathname = ''/wp-includes/js/x.js'',
              search = [], hash = []\<rparr> \<and>
   transformSrc Body wp_urls ''shop'' (Some ''https://wp.example.com'')
     (script_at ''x'' ''https://wp.example.com/wp-includes/js/x.js'')
     = ''/atx/shop/wp-internal-assets/wp-includes/js/x.js'' \<and>
   transformSrc Head wp_urls ''shop'' None
     (script_at ''y'' ''https://wp.example.com/wp-content/uploads/y.png'')
     = ''/atx/shop/wp-assets/wp-content/uploads/y.png''"
proof -
  let ?s = "''https://wp.example.com/wp-includes/js/x.js''"
  let ?u = "\<lparr>origin = ''https://wp.example.com'', pathname = ''/wp-includes/js/x.js'',
              search = [], hash = []\<rparr>"
  let ?t = "''https://wp.example.com/wp-content/uploads/y.png''"
  let ?v = "\<lparr>origin = ''https://wp.example.com'', pathname = ''/wp-content/uploads/y.png'',
              search = [], hash = []\<rparr>"
  have s: "truthy (src (script_at ''x'' ?s)) = Some ?s" by (simp add: truthy_def script_at_def)
  have u: "wp_urls ?s = Some ?u" by (simp add: wp_urls_def)
  have r: "Body = Head \<or> (\<forall>b. truthy (Some ''https://wp.example.com'') = Some b \<longrightarrow>
             \<not> isExternalScript wp_urls ?s b)"
    by (simp add: truthy_def isExternalScript_def wp_urls_def)
  have t: "truthy (src (script_at ''y'' ?t)) = Some ?t" by (simp add: truthy_def script_at_def)
  have v: "wp_urls ?t = Some ?v" by (simp add: wp_urls_def)
  have "transformSrc Body wp_urls ''shop'' (Some ''https://wp.example.com'') (script_at ''x'' ?s)
        = ''/atx/shop/wp-internal-assets/wp-includes/js/x.js''"
    using proxy_rewrite [OF s u r, of "''shop''"] by simp
  moreover have h: "Head = Head \<or> (\<forall>b. truthy None = Some b \<longrightarrow>
             \<not> isExternalScript wp_urls ?t b)" by simp
  have "transformSrc Head wp_urls ''shop'' None (script_at ''y'' ?t)
        = ''/atx/shop/wp-assets/wp-content/uploads/y.png''"
    using proxy_rewrite [OF t v h, of "''shop''"] by simp
  ultimately show ?thesis using s u by simp
qed

theorem query_discarded_witness:
  "truthy (src (script_at ''x'' ''https://wp.example.com/wp-includes/js/x.js?ver=6.4''))
     = Some ''https://wp.example.com/wp-includes/js/x.js?ver=6.4'' \<and>
   wp_urls ''https://wp.example.com/wp-includes/js/x.js?ver=6.4''
     = Some \<lparr>origin = ''https://wp.example.com'', pathname = ''/wp-includes/js/x.js'',
              search = ''?ver=6.4'', hash = []\<rparr> \<and>
   transformSrc Body wp_urls ''default'' (Some ''https://wp.example.com'')
     (script_at ''x'' ''https://wp.example.com/wp-includes/js/x.js?ver=6.4'')
   = ''/atx/default/wp-internal-assets/wp-includes/js/x.js'' \<and>
   transformSrc Body wp_urls ''default'' (Some ''https://wp.example.com'')
     (script_at ''x'' ''https://wp.example.com/wp-includes/js/x.js?ver=6.4'')
   \<noteq> ''/atx/default/wp-internal-assets/wp-includes/js/x.js?ver=6.4'' \<and>
   transformSrc Body wp_urls ''default'' (Some ''https://wp.example.com'')
     (script_at ''x'' ''https://wp.example.com/wp-includes/js/x.js'')
   = transformSrc Body wp_urls ''default'' (Some ''https://wp.example.com'')
     (script_at ''x'' ''https://wp.example.com/wp-includes/js/x.js?ver=6.4'')"
proof -
  let ?s = "''https://wp.example.com/wp-includes/js/x.js?ver=6.4''"
  let ?s' = "''https://wp.example.com/wp-includes/js/x.js''"
  let ?u = "\<lparr>origin = ''https://wp.example.com'', pathname = ''/wp-includes/js/x.js'',
              search = ''?ver=6.4'', hash = []\<rparr>"
  let ?b = "Some ''https://wp.example.com''"
  have s: "truthy (src (script_at ''x'' ?s)) = Some ?s" by (simp add: truthy_def script_at_def)
  have u: "wp_urls ?s = Some ?u" by (simp add: wp_urls_def)
  have r: "Body = Head \<or> (\<forall>b. truthy ?b = Some b \<longrightarrow> \<not> isExternalScript wp_urls ?s b)"
    by (simp add: truthy_def isExternalScript_def wp_urls_def)
  have s': "truthy (src (script_at ''x'' ?s')) = Some ?s'" by (simp add: truthy_def script_at_def)
  have u': "wp_urls ?s' = Some (?u\<lparr>search := [], hash := []\<rparr>)" by (simp add: wp_urls_def)
  have i: "isInternalRoute (pathname ?u)" by (simp add: isInternalRoute_def)
  note q = query_discarded [OF s u r, of "''default''"]
  from q i have 1: "transformSrc Body wp_urls ''default'' ?b (script_at ''x'' ?s)
                    = ''/atx/default/wp-internal-assets/wp-includes/js/x.js''" by simp
  from q i have 2: "transformSrc Body wp_urls ''default'' ?b (script_at ''x'' ?s)
                    \<noteq> ''/atx/default/wp-internal-assets/wp-includes/js/x.js?ver=6.4''" by simp
  from q s' u' have 3: "transformSrc Body wp_urls ''default'' ?b (script_at ''x'' ?s')
                        = transformSrc Body wp_urls ''default'' ?b (script_at ''x'' ?s)" by blast
  from 1 2 3 s u show ?thesis by simp
qed

section \<open>The symmetric origin encoder\<close>

subsection \<open>Strings as UTF-16, bytes as UTF-8\<close>

text \<open>
  For the codec a JavaScript string is its sequence of UTF-16 code units and a
  \<open>Uint8Array\<close> or \<open>Buffer\<close> a list of bytes. \<open>Buffer.from(s, 'utf8')\<close> and
  \<open>TextEncoder.encode\<close>, \<open>TextDecoder.decode\<close>, \<open>Buffer.toString('base64')\<close> and
  \<open>atob\<close> are functions of the platform; they are written out here as the Encoding
  and HTML standards define them. The arithmetic is on natural numbers, the arrays hold
  words.
\<close>

type_synonym byte = "8 word"
type_synonym js_string = "16 word list"

definition is_high :: "nat \<Rightarrow> bool" where
  "is_high u = (0xD800 \<le> u \<and> u < 0xDC00)"

definition is_low :: "nat \<Rightarrow> bool" where
  "is_low u = (0xDC00 \<le> u \<and> u < 0xE000)"

text \<open>
  The code points of a string: a surrogate pair is one code point, a surrogate without
  its partner is replaced by U+FFFD.
\<close>

fun code_points :: "nat list \<Rightarrow> nat list" where
  "code_points [] = []"
| "code_points [u] = [if is_high u \<or> is_low u then 0xFFFD else u]"
| "code_points (u # l # rest) =
     (if is_high u \<and> is_low l
      then (0x10000 + (u - 0xD800) * 1024 + (l - 0xDC00)) # code_points rest
      else (if is_high u \<or> is_low u then 0xFFFD else u) # code_points (l # rest))"

definition utf8_bytes :: "nat \<Rightarrow> nat list" where
  "utf8_bytes cp =
     (if cp < 0x80 then [cp]
      else if cp < 0x800 then [0xC0 + cp div 64, 0x80 + cp mod 64]
      else if cp < 0x10000
      then [0xE0 + cp div 4096, 0x80 + (cp div 64) mod 64, 0x80 + cp mod 64]
      else [0xF0 + cp div 262144, 0x80 + (cp div 4096) mod 64,
            0x80 + (cp div 64) mod 64, 0x80 + cp mod 64])"

definition utf8_encode :: "js_string \<Rightarrow> byte list" where
  "utf8_encode s = map of_nat (concat (map utf8_bytes (code_points (map unat s))))"

text \<open>
  The UTF-8 decoder with replacement: a byte that cannot continue the sequence read so
  far ends it with U+FFFD and is read again as the start of the next one.
\<close>

definition cont :: "nat \<Rightarrow> bool" where
  "cont c = (0x80 \<le> c \<and> c \<le> 0xBF)"

fun utf8_decode :: "nat list \<Rightarrow> nat list" where
  "utf8_decode [] = []"
| "utf8_decode (b # bs) =
     (if b < 0x80 then b # utf8_decode bs
      else if 0xC2 \<le> b \<and> b \<le> 0xDF then
        (case bs of
           [] \<Rightarrow> [0xFFFD]
         | c1 # r1 \<Rightarrow>
             if cont c1 then ((b - 0xC0) * 64 + (c1 - 0x80)) # utf8_decode r1
             else 0xFFFD # utf8_decode bs)
      else if 0xE0 \<le> b \<and> b \<le> 0xEF then
        (case bs of
           [] \<Rightarrow> [0xFFFD]
         | c1 # r1 \<Rightarrow>
             if (if b = 0xE0 then 0xA0 else 0x80) \<le> c1 \<and> c1 \<le> (if b = 0xED then 0x9F else 0xBF)
             then (case r1 of
                     [] \<Rightarrow> [0xFFFD]
                   | c2 # r2 \<Rightarrow>
                       if cont c2
                       then ((b - 0xE0) * 4096 + (c1 - 0x80) * 64 + (c2 - 0x80)) # utf8_decode r2
                       else 0xFFFD # utf8_decode r1)
             else 0xFFFD # utf8_decode bs)
      else if 0xF0 \<le> b \<and> b \<le> 0xF4 then
        (case bs of
           [] \<Rightarrow> [0xFFFD]
         | c1 # r1 \<Rightarrow>
             if (if b = 0xF0 then 0x90 else 0x80) \<le> c1 \<and> c1 \<le> (if b = 0xF4 then 0x8F else 0xBF)
             then (case r1 of
                     [] \<Rightarrow> [0xFFFD]
                   | c2 # r2 \<Rightarrow>
                       if cont c2
                       then (case r2 of
                               [] \<Rightarrow> [0xFFFD]
                             | c3 # r3 \<Rightarrow>
                                 if cont c3
                                 then ((b - 0xF0) * 262144 + (c1 - 0x80) * 4096
                                        + (c2 - 0x80) * 64 + (c3 - 0x80)) # utf8_decode r3
                                 else 0xFFFD # utf8_decode r2)
                       else 0xFFFD # utf8_decode r1)
             else 0xFFFD # utf8_decode bs)
      else 0xFFFD # utf8_decode bs)"

definition utf16_units :: "nat \<Rightarrow> nat list" where
  "utf16_units cp =
     (if cp < 0x10000 then [cp]
      else [0xD800 + (cp - 0x10000) div 1024, 0xDC00 + (cp - 0x10000) mod 1024])"

text \<open>
  \<open>new TextDecoder()\<close> has \<open>ignoreBOM = false\<close>: a byte order mark at the start of
  the input is not part of the output.
\<close>

definition strip_bom :: "nat list \<Rightarrow> nat list" where
  "strip_bom bs = (if take 3 bs = [0xEF, 0xBB, 0xBF] then drop 3 bs else bs)"

definition TextDecoder_decode :: "byte list \<Rightarrow> js_string" where
  "TextDecoder_decode bs =
     map of_nat (concat (map utf16_units (utf8_decode (strip_bom (map unat bs)))))"

definition is_scalar :: "nat \<Rightarrow> bool" where
  "is_scalar cp = (cp < 0x110000 \<and> \<not> (0xD800 \<le> cp \<and> cp < 0xE000))"

lemma split64:
  fixes n :: nat
  obtains q r where "n = q * 64 + r" "r < 64" "n div 64 = q" "n mod 64 = r"
proof
  show "n = (n div 64) * 64 + n mod 64" by simp
  show "n mod 64 < 64" by simp
qed simp_all

lemma dec2:
  "0xC2 \<le> b \<Longrightarrow> b \<le> 0xDF \<Longrightarrow> cont c1 \<Longrightarrow>
   utf8_decode (b # c1 # rest) = ((b - 0xC0) * 64 + (c1 - 0x80)) # utf8_decode rest"
  by simp

lemma dec3:
  "0xE0 \<le> b \<Longrightarrow> b \<le> 0xEF \<Longrightarrow> (if b = 0xE0 then 0xA0 else 0x80) \<le> c1 \<Longrightarrow>
   c1 \<le> (if b = 0xED then 0x9F else 0xBF) \<Longrightarrow> cont c2 \<Longrightarrow>
   utf8_decode (b # c1 # c2 # rest)
   = ((b - 0xE0) * 4096 + (c1 - 0x80) * 64 + (c2 - 0x80)) # utf8_decode rest"
  by simp

lemma dec4:
  "0xF0 \<le> b \<Longrightarrow> b \<le> 0xF4 \<Longrightarrow> (if b = 0xF0 then 0x90 else 0x80) \<le> c1 \<Longrightarrow>
   c1 \<le> (if b = 0xF4 then 0x8F else 0xBF) \<Longrightarrow> cont c2 \<Longrightarrow> cont c3 \<Longrightarrow>
   utf8_decode (b # c1 # c2 # c3 # rest)
   = ((b - 0xF0) * 262144 + (c1 - 0x80) * 4096 + (c2 - 0x80) * 64 + (c3 - 0x80))
     # utf8_decode rest"
  by simp

lemma dec_enc_1: "cp < 0x80 \<Longrightarrow> utf8_decode (utf8_bytes cp @ rest) = cp # utf8_decode rest"
  by (simp add: utf8_bytes_def)

lemma dec_enc_2:
  assumes "0x80 \<le> cp" "cp < 0x800"
  shows "utf8_decode (utf8_bytes cp @ rest) = cp # utf8_decode rest"
proof -
  obtain q r where cp: "cp = q * 64 + r" "r < 64" "cp div 64 = q" "cp mod 64 = r"
    by (rule split64)
  have bytes: "utf8_bytes cp = [0xC0 + q, 0x80 + r]"
    using assms cp(3,4) by (simp add: utf8_bytes_def)
  have b: "0xC2 \<le> 0xC0 + q" "0xC0 + q \<le> 0xDF" using assms cp(1,2) by arith+
  have c: "cont (0x80 + r)" using cp(2) by (simp add: cont_def)
  have v: "(0xC0 + q - 0xC0) * 64 + (0x80 + r - 0x80) = cp" using cp(1) by simp
  show ?thesis unfolding bytes using dec2 [OF b c, of rest] v by simp
qed

lemma dec_enc_3:
  assumes "0x800 \<le> cp" "cp < 0x10000" "\<not> (0xD800 \<le> cp \<and> cp < 0xE000)"
  shows "utf8_decode (utf8_bytes cp @ rest) = cp # utf8_decode rest"
proof -
  obtain q r where cp: "cp = q * 64 + r" "r < 64" "cp div 64 = q" "cp mod 64 = r"
    by (rule split64)
  obtain q1 r1 where q: "q = q1 * 64 + r1" "r1 < 64" "q div 64 = q1" "q mod 64 = r1"
    by (rule split64)
  have d: "cp div 4096 = q1"
    using cp(3) q(3) div_mult2_eq [of cp 64 64] by simp
  have bytes: "utf8_bytes cp = [0xE0 + q1, 0x80 + r1, 0x80 + r]"
    using assms cp(3,4) q(4) d by (simp add: utf8_bytes_def)
  have b: "0xE0 \<le> 0xE0 + q1" "0xE0 + q1 \<le> 0xEF" using assms cp(1,2) q(1,2) by arith+
  have lo: "(if 0xE0 + q1 = 0xE0 then 0xA0 else 0x80) \<le> 0x80 + r1"
    using assms(1) cp(1,2) q(1,2) by (cases "q1 = 0") simp_all
  have hi: "0x80 + r1 \<le> (if 0xE0 + q1 = 0xED then 0x9F else 0xBF)"
  proof (cases "q1 = 13")
    case True
    with assms(3) cp(1,2) q(1,2) have "r1 < 32" by arith
    with True show ?thesis by simp
  next
    case False
    with q(2) show ?thesis by simp
  qed
  have c: "cont (0x80 + r)" using cp(2) by (simp add: cont_def)
  have v: "(0xE0 + q1 - 0xE0) * 4096 + (0x80 + r1 - 0x80) * 64 + (0x80 + r - 0x80) = cp"
    using cp(1) q(1) by simp
  show ?thesis unfolding bytes using dec3 [OF b lo hi c, of rest] v by simp
qed

lemma dec_enc_4:
  assumes "0x10000 \<le> cp" "cp < 0x110000"
  shows "utf8_decode (utf8_bytes cp @ rest) = cp # utf8_decode rest"
proof -
  obtain q r where cp: "cp = q * 64 + r" "r < 64" "cp div 64 = q" "cp mod 64 = r"
    by (rule split64)
  obtain q1 r1 where q: "q = q1 * 64 + r1" "r1 < 64" "q div 64 = q1" "q mod 64 = r1"
    by (rule split64)
  obtain q2 r2 where q1: "q1 = q2 * 64 + r2" "r2 < 64" "q1 div 64 = q2" "q1 mod 64 = r2"
    by (rule split64)
  have d1: "cp div 4096 = q1"
    using cp(3) q(3) div_mult2_eq [of cp 64 64] by simp
  have d2: "cp div 262144 = q2"
    using d1 q1(3) div_mult2_eq [of cp 4096 64] by simp
  have bytes: "utf8_bytes cp = [0xF0 + q2, 0x80 + r2, 0x80 + r1, 0x80 + r]"
    using assms cp(3,4) q(4) q1(4) d1 d2 by (simp add: utf8_bytes_def)
  have b: "0xF0 \<le> 0xF0 + q2" "0xF0 + q2 \<le> 0xF4"
    using assms cp(1,2) q(1,2) q1(1,2) by arith+
  have lo: "(if 0xF0 + q2 = 0xF0 then 0x90 else 0x80) \<le> 0x80 + r2"
  proof (cases "q2 = 0")
    case True
    with assms(1) cp(1,2) q(1,2) q1(1,2) have "16 \<le> r2" by arith
    with True show ?thesis by simp
  next
    case False then show ?thesis by simp
  qed
  have hi: "0x80 + r2 \<le> (if 0xF0 + q2 = 0xF4 then 0x8F else 0xBF)"
  proof (cases "q2 = 4")
    case True
    with assms(2) cp(1,2) q(1,2) q1(1,2) have "r2 < 16" by arith
    with True show ?thesis by simp
  next
    case False
    with q1(2) show ?thesis by simp
  qed
  have c2: "cont (0x80 + r1)" using q(2) by (simp add: cont_def)
  have c3: "cont (0x80 + r)" using cp(2) by (simp add: cont_def)
  have v: "(0xF0 + q2 - 0xF0) * 262144 + (0x80 + r2 - 0x80) * 4096
           + (0x80 + r1 - 0x80) * 64 + (0x80 + r - 0x80) = cp"
    using cp(1) q(1) q1(1) by simp
  show ?thesis unfolding bytes using dec4 [OF b lo hi c2 c3, of rest] v by simp
qed

lemma dec_enc: "is_scalar cp \<Longrightarrow> utf8_decode (utf8_bytes cp @ rest) = cp # utf8_decode rest"
  using dec_enc_1 [of cp rest] dec_enc_2 [of cp rest] dec_enc_3 [of cp rest] dec_enc_4 [of cp rest]
  unfolding is_scalar_def by linarith

lemma utf8_decode_encode:
  "\<forall>cp\<in>set cps. is_scalar cp \<Longrightarrow> utf8_decode (concat (map utf8_bytes cps)) = cps"
  by (induction cps) (simp_all add: dec_enc)

lemma utf8_bytes_bound: "cp < 0x110000 \<Longrightarrow> b \<in> set (utf8_bytes cp) \<Longrightarrow> b < 256"
  by (auto simp: utf8_bytes_def split: if_splits)

fun well_formed :: "nat list \<Rightarrow> bool" where
  "well_formed [] = True"
| "well_formed [u] = (\<not> is_high u \<and> \<not> is_low u)"
| "well_formed (u # l # rest) =
     (if is_high u then is_low l \<and> well_formed rest
      else \<not> is_low u \<and> well_formed (l # rest))"

lemma pair_scalar:
  assumes "is_high u" "is_low l"
  shows "is_scalar (0x10000 + (u - 0xD800) * 1024 + (l - 0xDC00)) \<and>
         utf16_units (0x10000 + (u - 0xD800) * 1024 + (l - 0xDC00)) = [u, l]"
proof -
  define a where "a = u - 0xD800"
  define b where "b = l - 0xDC00"
  have a: "u = 0xD800 + a" "a < 1024" using assms(1) unfolding a_def is_high_def by arith+
  have b: "l = 0xDC00 + b" "b < 1024" using assms(2) unfolding b_def is_low_def by arith+
  have s: "is_scalar (0x10000 + a * 1024 + b)"
    using a(2) b(2) by (simp add: is_scalar_def)
  have dm: "(a * 1024 + b) div 1024 = a" "(a * 1024 + b) mod 1024 = b" using b(2) by simp_all
  have ge: "\<not> 0x10000 + a * 1024 + b < (0x10000 :: nat)" by linarith
  have sub: "0x10000 + a * 1024 + b - 0x10000 = a * 1024 + b" by linarith
  have "utf16_units (0x10000 + a * 1024 + b) = [0xD800 + a, 0xDC00 + b]"
    by (simp only: utf16_units_def ge sub dm if_False)
  then have "utf16_units (0x10000 + a * 1024 + b) = [u, l]"
    by (simp only: a(1) [symmetric] b(1) [symmetric])
  with s show ?thesis unfolding a_def b_def by (rule conjI)
qed

lemma single_scalar:
  assumes "\<not> is_high u" "\<not> is_low u" "u < 65536"
  shows "is_scalar u \<and> utf16_units u = [u]"
  using assms by (auto simp: is_scalar_def utf16_units_def is_high_def is_low_def)

lemma code_points_well_formed:
  "well_formed us \<Longrightarrow> \<forall>u\<in>set us. u < 65536 \<Longrightarrow>
   (\<forall>cp\<in>set (code_points us). is_scalar cp) \<and>
   concat (map utf16_units (code_points us)) = us"
proof (induction us rule: code_points.induct)
  case 1
  then show ?case by simp
next
  case (2 u)
  then show ?case using single_scalar [of u] by simp
next
  case (3 u l rest)
  show ?case
  proof (cases "is_high u")
    case True
    with "3.prems" have l: "is_low l" and wf: "well_formed rest" by simp_all
    from "3.IH"(1) True l wf "3.prems"(2) pair_scalar [OF True l]
    show ?thesis by simp
  next
    case False
    with "3.prems" have nl: "\<not> is_low u" and wf: "well_formed (l # rest)" by simp_all
    from "3.IH"(2) False nl wf "3.prems"(2) single_scalar [of u]
    show ?thesis by simp
  qed
qed

definition starts_with_bom :: "nat list \<Rightarrow> bool" where
  "starts_with_bom us = (take 1 us = [0xFEFF])"

lemma no_bom_bytes:
  assumes "is_scalar cp" "cp \<noteq> 0xFEFF"
  shows "take 3 (utf8_bytes cp @ rest) \<noteq> [0xEF, 0xBB, 0xBF]"
proof -
  obtain q r where cp: "cp = q * 64 + r" "r < 64" "cp div 64 = q" "cp mod 64 = r"
    by (rule split64)
  obtain q1 r1 where q: "q = q1 * 64 + r1" "r1 < 64" "q div 64 = q1" "q mod 64 = r1"
    by (rule split64)
  have d: "cp div 4096 = q1"
    using cp(3) q(3) div_mult2_eq [of cp 64 64] by simp
  consider "cp < 0x80" | "0x80 \<le> cp \<and> cp < 0x800" | "0x800 \<le> cp \<and> cp < 0x10000" | "0x10000 \<le> cp"
    by linarith
  then show ?thesis
  proof cases
    case 1
    then show ?thesis by (simp add: utf8_bytes_def)
  next
    case 2
    then have "utf8_bytes cp = [0xC0 + q, 0x80 + r]" using cp(3,4) by (simp add: utf8_bytes_def)
    moreover from 2 cp(1,2) have "q < 32" by arith
    ultimately show ?thesis by simp
  next
    case 3
    then have "utf8_bytes cp = [0xE0 + q1, 0x80 + r1, 0x80 + r]"
      using cp(3,4) q(4) d by (simp add: utf8_bytes_def)
    moreover have "\<not> (q1 = 15 \<and> r1 = 59 \<and> r = 63)" using assms(2) cp(1) q(1) by auto
    ultimately show ?thesis by auto
  next
    case 4
    then have "hd (utf8_bytes cp) = 0xF0 + cp div 262144" by (simp add: utf8_bytes_def)
    moreover from 4 have "length (utf8_bytes cp) = 4" by (simp add: utf8_bytes_def)
    ultimately show ?thesis by (cases "utf8_bytes cp") auto
  qed
qed

lemma code_points_head:
  assumes "well_formed us" "\<not> starts_with_bom us" "us \<noteq> []"
  shows "\<exists>cp cps. code_points us = cp # cps \<and> cp \<noteq> 0xFEFF"
proof (cases us)
  case Nil
  with assms(3) show ?thesis by simp
next
  case (Cons u rest)
  show ?thesis
  proof (cases rest)
    case Nil
    with Cons assms show ?thesis by (auto simp: starts_with_bom_def)
  next
    case (Cons l rest')
    with \<open>us = u # rest\<close> assms show ?thesis
      by (auto simp: starts_with_bom_def is_high_def)
  qed
qed

lemma strip_bom_encode:
  assumes "well_formed us" "\<forall>u\<in>set us. u < 65536" "\<not> starts_with_bom us"
  shows "strip_bom (concat (map utf8_bytes (code_points us))) = concat (map utf8_bytes (code_points us))"
proof (cases "us = []")
  case True
  then show ?thesis by (simp add: strip_bom_def)
next
  case False
  from code_points_head [OF assms(1,3) False] obtain cp cps
    where c: "code_points us = cp # cps" "cp \<noteq> 0xFEFF" by blast
  from code_points_well_formed [OF assms(1,2)] c(1) have "is_scalar cp" by simp
  from no_bom_bytes [OF this c(2)] show ?thesis by (simp add: c(1) strip_bom_def)
qed

lemma unat_bytes: "\<forall>b\<in>set bs. b < 256 \<Longrightarrow> map unat (map of_nat bs :: byte list) = bs"
  by (induction bs) (simp_all add: unat_of_nat)

lemma of_nat_units: "map (of_nat \<circ> unat) (s :: js_string) = s"
  by (induction s) simp_all

lemma scalar_bytes_bound:
  "\<forall>cp\<in>set cps. is_scalar cp \<Longrightarrow> \<forall>b\<in>set (concat (map utf8_bytes cps)). b < 256"
  using utf8_bytes_bound by (auto simp: is_scalar_def)

lemma units_bound: "\<forall>u\<in>set (map unat (s :: js_string)). u < 65536"
proof
  fix u assume "u \<in> set (map unat s)"
  then obtain w :: "16 word" where "u = unat w" by auto
  moreover have "unat w < 2 ^ 16" using unsigned_less [of w, where 'a = nat] by simp
  ultimately show "u < 65536" by simp
qed

theorem decode_encode_utf8:
  assumes "well_formed (map unat s)" "\<not> starts_with_bom (map unat s)"
  shows "TextDecoder_decode (utf8_encode s) = s"
proof -
  let ?us = "map unat s"
  let ?cps = "code_points ?us"
  let ?bs = "concat (map utf8_bytes ?cps)"
  from code_points_well_formed [OF assms(1) units_bound]
  have sc: "\<forall>cp\<in>set ?cps. is_scalar cp" and units: "concat (map utf16_units ?cps) = ?us"
    by simp_all
  have "map unat (utf8_encode s) = ?bs"
    unfolding utf8_encode_def by (rule unat_bytes [OF scalar_bytes_bound [OF sc]])
  moreover have "strip_bom ?bs = ?bs" by (rule strip_bom_encode [OF assms(1) units_bound assms(2)])
  moreover have "utf8_decode ?bs = ?cps" by (rule utf8_decode_encode [OF sc])
  ultimately show ?thesis
    by (simp add: TextDecoder_decode_def units of_nat_units)
qed

subsection \<open>The XOR stream\<close>

text \<open>
  \<open>saltBytes[i % saltBytes.length]\<close>. With an empty salt the index is \<open>NaN\<close>, the
  read gives \<open>undefined\<close>, and \<open>x ^ undefined\<close> is \<open>x\<close>.
\<close>

definition salt_byte :: "byte list \<Rightarrow> nat \<Rightarrow> byte" where
  "salt_byte saltBytes i =
     (if saltBytes = [] then 0 else saltBytes ! (i mod length saltBytes))"

definition xor_salt :: "byte list \<Rightarrow> byte list \<Rightarrow> byte list" where
  "xor_salt bytes saltBytes =
     map (\<lambda>i. (bytes ! i) XOR salt_byte saltBytes i) [0..<length bytes]"

lemma xor_salt_twice: "xor_salt (xor_salt bytes k) k = bytes"
  by (rule nth_equalityI) (simp_all add: xor_salt_def xor.assoc)

subsection \<open>Base64\<close>

datatype js_error = InvalidCharacterError | URIError | SyntaxError | TypeError | GenericError string

definition b64_char :: "nat \<Rightarrow> char" where
  "b64_char v =
     (if v < 26 then char_of (65 + v)
      else if v < 52 then char_of (71 + v)
      else if v < 62 then char_of (v - 4)
      else if v = 62 then CHR ''+'' else CHR ''/'')"

definition b64_index :: "char \<Rightarrow> nat option" where
  "b64_index c =
     (let n = (of_char c :: nat)
      in if 65 \<le> n \<and> n \<le> 90 then Some (n - 65)
         else if 97 \<le> n \<and> n \<le> 122 then Some (n - 71)
         else if 48 \<le> n \<and> n \<le> 57 then Some (n + 4)
         else if n = 43 then Some 62
         else if n = 47 then Some 63
         else None)"

fun b64_values :: "nat list \<Rightarrow> nat list" where
  "b64_values [] = []"
| "b64_values [a] = [a div 4, (a mod 4) * 16]"
| "b64_values [a, b] = [a div 4, (a mod 4) * 16 + b div 16, (b mod 16) * 4]"
| "b64_values (a # b # c # rest) =
     [a div 4, (a mod 4) * 16 + b div 16, (b mod 16) * 4 + c div 64, c mod 64]
     @ b64_values rest"

definition base64 :: "byte list \<Rightarrow> string" where
  "base64 bytes =
     map b64_char (b64_values (map unat bytes))
     @ replicate ((3 - length bytes mod 3) mod 3) (CHR ''='')"

text \<open>
  \<open>atob\<close> (forgiving-base64 decode) followed by \<open>Uint8Array.from(_, c => c.charCodeAt(0))\<close>:
  ASCII whitespace is dropped, one or two padding characters are removed when the length
  is a multiple of 4, and a length of 1 modulo 4 or a character outside the alphabet
  throws.
\<close>

definition is_ascii_whitespace :: "char \<Rightarrow> bool" where
  "is_ascii_whitespace c = ((of_char c :: nat) \<in> {9, 10, 12, 13, 32})"

definition strip_padding :: "string \<Rightarrow> string" where
  "strip_padding data =
     (if length data mod 4 = 0
      then (if 2 \<le> length data \<and> drop (length data - 2) data = ''==''
            then take (length data - 2) data
            else if 1 \<le> length data \<and> drop (length data - 1) data = ''=''
            then take (length data - 1) data
            else data)
      else data)"

fun b64_bytes :: "nat list \<Rightarrow> nat list" where
  "b64_bytes (v1 # v2 # v3 # v4 # rest) =
     [v1 * 4 + v2 div 16, (v2 mod 16) * 16 + v3 div 4, (v3 mod 4) * 64 + v4] @ b64_bytes rest"
| "b64_bytes [v1, v2, v3] = [v1 * 4 + v2 div 16, (v2 mod 16) * 16 + v3 div 4]"
| "b64_bytes [v1, v2] = [v1 * 4 + v2 div 16]"
| "b64_bytes _ = []"

definition atob_bytes :: "string \<Rightarrow> js_error + byte list" where
  "atob_bytes encoded =
     (let data = strip_padding (filter (\<lambda>c. \<not> is_ascii_whitespace c) encoded)
      in if length data mod 4 = 1 then Inl InvalidCharacterError
         else (case those (map b64_index data) of
                 None \<Rightarrow> Inl InvalidCharacterError
               | Some vs \<Rightarrow> Inr (map of_nat (b64_bytes vs))))"


lemma b64_index_char: "v < 64 \<Longrightarrow> b64_index (b64_char v) = Some v"
  by (auto simp: b64_index_def b64_char_def Let_def)

lemma b64_char_plain:
  assumes "v < 64"
  shows "\<not> is_ascii_whitespace (b64_char v) \<and> b64_char v \<noteq> CHR ''=''"
proof -
  have w: "\<not> is_ascii_whitespace (b64_char v)"
    using assms by (auto simp: is_ascii_whitespace_def b64_char_def)
  have "(of_char (b64_char v) :: nat) \<noteq> 61"
    using assms by (auto simp: b64_char_def)
  then have "b64_char v \<noteq> CHR ''=''" by auto
  with w show ?thesis by simp
qed

lemma six_bits:
  fixes a b :: nat
  assumes "b < 256"
  shows "a div 4 < 64 \<or> 256 \<le> a" "(a mod 4) * 16 + b div 16 < 64" "(a mod 16) * 4 + b div 64 < 64"
    "(a mod 4) * 16 < 64" "(a mod 16) * 4 < 64"
proof -
  have m4: "a mod 4 < 4" and m16: "a mod 16 < 16" by simp_all
  have d16: "b div 16 < 16" and d64: "b div 64 < 4" using assms by simp_all
  show "a div 4 < 64 \<or> 256 \<le> a" by (cases "a < 256") simp_all
  show "(a mod 4) * 16 + b div 16 < 64" using m4 d16 by linarith
  show "(a mod 16) * 4 + b div 64 < 64" using m16 d64 by linarith
  show "(a mod 4) * 16 < 64" using m4 by linarith
  show "(a mod 16) * 4 < 64" using m16 by linarith
qed

lemma b64_values_bound: "\<forall>b\<in>set bs. b < 256 \<Longrightarrow> \<forall>v\<in>set (b64_values bs). v < 64"
proof (induction bs rule: b64_values.induct)
  case (4 a b c rest)
  then have a: "a < 256" and b: "b < 256" and c: "c < 256" by simp_all
  from six_bits [OF b, of a] six_bits [OF c, of b] a 4 show ?case by simp
next
  case (3 a b)
  then have a: "a < 256" and b: "b < 256" by simp_all
  from six_bits [OF b, of a] six_bits [OF b, of b] a show ?case by simp
next
  case (2 a)
  then have a: "a < 256" by simp
  from six_bits [OF a, of a] a show ?case by simp
qed simp

lemma b64_bytes_values: "\<forall>b\<in>set bs. b < 256 \<Longrightarrow> b64_bytes (b64_values bs) = bs"
proof (induction bs rule: b64_values.induct)
  case (4 a b c rest)
  then have b: "b < 256" and c: "c < 256" by simp_all
  have b16: "b div 16 < 16" using b by simp
  have c64: "c div 64 < 4" using c by simp
  have 1: "a div 4 * 4 + ((a mod 4) * 16 + b div 16) div 16 = a"
    using b16 by simp
  have 2: "(((a mod 4) * 16 + b div 16) mod 16) * 16 + ((b mod 16) * 4 + c div 64) div 4 = b"
    using b16 c64 by simp
  have 3: "(((b mod 16) * 4 + c div 64) mod 4) * 64 + c mod 64 = c"
    using c64 by simp
  from 4 1 2 3 show ?case by simp
next
  case (3 a b)
  then have b: "b < 256" by simp
  have b16: "b div 16 < 16" using b by simp
  have 1: "a div 4 * 4 + ((a mod 4) * 16 + b div 16) div 16 = a"
    using b16 by simp
  have 2: "(((a mod 4) * 16 + b div 16) mod 16) * 16 + ((b mod 16) * 4) div 4 = b"
    using b16 by simp
  from 1 2 show ?case by simp
next
  case (2 a)
  have "a div 4 * 4 + ((a mod 4) * 16) div 16 = a" by simp
  then show ?case by simp
qed simp

lemma Suc3_mod: "Suc (Suc (Suc n)) mod 3 = n mod 3"
  by presburger

lemma Suc4_mod: "Suc (Suc (Suc (Suc n))) mod 4 = n mod 4"
  by presburger

lemma b64_values_length:
  "length (b64_values bs) mod 4 = (if length bs mod 3 = 0 then 0 else length bs mod 3 + 1)"
  by (induction bs rule: b64_values.induct) (simp_all add: Suc3_mod Suc4_mod)

lemma those_map_Some:
  "\<forall>v\<in>set vs. f (g v) = Some v \<Longrightarrow> those (map f (map g vs)) = Some vs"
  by (induction vs) simp_all

lemma strip_padding_replicate:
  assumes "\<forall>c\<in>set e. c \<noteq> CHR ''=''" "length (e @ replicate k (CHR ''='')) mod 4 = 0" "k \<le> 2"
  shows "strip_padding (e @ replicate k (CHR ''='')) = e"
proof -
  have no: "drop m e \<noteq> CHR ''='' # xs" for m xs
  proof
    assume "drop m e = CHR ''='' # xs"
    then have "CHR ''='' \<in> set (drop m e)" by simp
    then have "CHR ''='' \<in> set e" by (rule in_set_dropD)
    with assms(1) show False by blast
  qed
  consider "k = 0" | "k = 1" | "k = 2" using assms(3) by linarith
  then show ?thesis
  proof cases
    case 1
    with assms(2) no show ?thesis by (simp add: strip_padding_def)
  next
    case 2
    have "drop (length e - 1) e @ ''='' \<noteq> ''==''"
    proof
      assume "drop (length e - 1) e @ ''='' = ''==''"
      then have "drop (length e - 1) e = ''=''" by (simp add: append_eq_Cons_conv)
      with no show False by blast
    qed
    with 2 assms(2) show ?thesis by (simp add: strip_padding_def)
  next
    case 3
    with assms(2) show ?thesis by (simp add: strip_padding_def numeral_2_eq_2)
  qed
qed

lemma atob_base64: "atob_bytes (base64 bytes) = Inr bytes"
proof -
  let ?bs = "map unat bytes"
  let ?vs = "b64_values ?bs"
  let ?e = "map b64_char ?vs"
  let ?k = "(3 - length bytes mod 3) mod 3"
  have bb: "\<forall>b\<in>set ?bs. b < 256"
  proof
    fix b assume "b \<in> set ?bs"
    then obtain w :: byte where "b = unat w" by auto
    moreover have "unat w < 2 ^ 8" using unsigned_less [of w, where 'a = nat] by simp
    ultimately show "b < 256" by simp
  qed
  from b64_values_bound [OF bb] have vb: "\<forall>v\<in>set ?vs. v < 64" .
  have plain: "\<forall>c\<in>set ?e. \<not> is_ascii_whitespace c \<and> c \<noteq> CHR ''=''"
    using vb b64_char_plain by auto
  have eqws: "\<not> is_ascii_whitespace (CHR ''='')" by (simp add: is_ascii_whitespace_def)
  have filt: "filter (\<lambda>c. \<not> is_ascii_whitespace c) (base64 bytes) = ?e @ replicate ?k (CHR ''='')"
    using plain eqws by (simp add: base64_def filter_id_conv)
  have lenm: "length ?e mod 4 = (if length bytes mod 3 = 0 then 0 else length bytes mod 3 + 1)"
    using b64_values_length [of ?bs] by simp
  have m3: "length bytes mod 3 = 0 \<or> length bytes mod 3 = 1 \<or> length bytes mod 3 = 2"
    by presburger
  have tot: "length (?e @ replicate ?k (CHR ''='')) mod 4 = 0"
  proof -
    have "(length ?e mod 4 + ?k) mod 4 = 0" using m3 lenm by auto
    then show ?thesis by (simp add: mod_add_left_eq)
  qed
  have "?k < 3" by simp
  then have k2: "?k \<le> 2" by linarith
  have strip: "strip_padding (?e @ replicate ?k (CHR ''='')) = ?e"
    using plain tot k2 by (intro strip_padding_replicate) auto
  have n1: "length ?e mod 4 \<noteq> 1" using m3 lenm by auto
  have th: "those (map b64_index ?e) = Some ?vs"
    using vb b64_index_char by (intro those_map_Some) auto
  have "map of_nat (b64_bytes ?vs) = bytes"
    using b64_bytes_values [OF bb] by (simp add: comp_def map_idI)
  with filt strip n1 th show ?thesis
    by (simp add: atob_bytes_def Let_def)
qed

subsection \<open>Encoder and decoder\<close>

definition encodeWithSalt :: "js_string \<Rightarrow> js_string \<Rightarrow> string" where
  "encodeWithSalt data salt =
     (let textBytes = utf8_encode data;
          saltBytes = utf8_encode salt
      in base64 (xor_salt textBytes saltBytes))"

definition decodeWithSalt :: "string \<Rightarrow> js_string \<Rightarrow> js_error + js_string" where
  "decodeWithSalt encoded salt =
     (case atob_bytes encoded of
        Inl e \<Rightarrow> Inl e
      | Inr encodedBytes \<Rightarrow>
          Inr (TextDecoder_decode (xor_salt encodedBytes (utf8_encode salt))))"

text \<open>
  Claim C5, as amended. For every string \<open>x\<close> without an unpaired surrogate that does
  not start with U+FEFF, and every non-empty salt, decoding the encoding of \<open>x\<close> under
  the salt returns \<open>x\<close>.
\<close>

theorem codec_round_trip:
  assumes "well_formed (map unat x)" and "\<not> starts_with_bom (map unat x)" and "salt \<noteq> []"
  shows "decodeWithSalt (encodeWithSalt x salt) salt = Inr x"
  using decode_encode_utf8 [OF assms(1,2)]
  by (simp add: decodeWithSalt_def encodeWithSalt_def Let_def atob_base64 xor_salt_twice)

theorem codec_round_trip_witness:
  "well_formed (map unat [0x68, 0x69 :: 16 word]) \<and> \<not> starts_with_bom (map unat [0x68, 0x69 :: 16 word]) \<and>
   [0x73 :: 16 word] \<noteq> [] \<and>
   decodeWithSalt (encodeWithSalt [0x68, 0x69] [0x73]) [0x73] = Inr [0x68, 0x69]"
proof -
  have w: "well_formed (map unat [0x68, 0x69 :: 16 word])"
    by (simp add: is_high_def is_low_def)
  have b: "\<not> starts_with_bom (map unat [0x68, 0x69 :: 16 word])"
    by (simp add: starts_with_bom_def)
  have s: "[0x73 :: 16 word] \<noteq> []" by simp
  from codec_round_trip [OF w b s] w b s show ?thesis by simp
qed

lemma codec_general:
  "decodeWithSalt (encodeWithSalt x salt) salt = Inr (TextDecoder_decode (utf8_encode x))"
  by (simp add: decodeWithSalt_def encodeWithSalt_def Let_def atob_base64 xor_salt_twice)

lemma bom_bytes: "utf8_encode [0xFEFF, 0x41] = [0xEF, 0xBB, 0xBF, 0x41]"
  by (simp add: utf8_encode_def utf8_bytes_def is_high_def is_low_def)

lemma bom_decoded: "TextDecoder_decode [0xEF, 0xBB, 0xBF, 0x41] = [0x41]"
  by (simp add: TextDecoder_decode_def strip_bom_def utf16_units_def)

lemma surrogate_bytes: "utf8_encode [0xD800] = [0xEF, 0xBF, 0xBD]"
  by (simp add: utf8_encode_def utf8_bytes_def is_high_def is_low_def)

lemma surrogate_decoded: "TextDecoder_decode [0xEF, 0xBF, 0xBD] = [0xFFFD]"
  by (simp add: TextDecoder_decode_def strip_bom_def utf16_units_def cont_def)

text \<open>
  Claim C5 as stated fails: the string U+FEFF, \<open>A\<close> encoded under the salt \<open>s\<close> decodes
  to \<open>A\<close>. A string with an unpaired surrogate comes back with U+FFFD in its place.
\<close>

theorem codec_drops_bom:
  "[0x73 :: 16 word] \<noteq> [] \<and>
   decodeWithSalt (encodeWithSalt [0xFEFF, 0x41] [0x73]) [0x73] = Inr [0x41] \<and>
   decodeWithSalt (encodeWithSalt [0xFEFF, 0x41] [0x73]) [0x73] \<noteq> Inr [0xFEFF, 0x41]"
  by (simp only: codec_general bom_bytes bom_decoded) simp

lemma codec_replaces_lone_surrogate:
  "decodeWithSalt (encodeWithSalt [0xD800] [0x73]) [0x73] = Inr [0xFFFD]"
  by (simp only: codec_general surrogate_bytes surrogate_decoded)

section \<open>The settings payload transform\<close>

subsection \<open>Escaping\<close>

text \<open>
  \<open>String.prototype.replace\<close> with a global pattern of one character replaces every
  occurrence, left to right.
\<close>

definition replace_char :: "char \<Rightarrow> string \<Rightarrow> string \<Rightarrow> string" where
  "replace_char c r s = concat (map (\<lambda>x. if x = c then r else [x]) s)"

text \<open>
  With a global pattern of two characters the occurrences are found left to right and do
  not overlap.
\<close>

fun replace_pair :: "char \<Rightarrow> char \<Rightarrow> string \<Rightarrow> string \<Rightarrow> string" where
  "replace_pair a b r (x # y # s) =
     (if x = a \<and> y = b then r @ replace_pair a b r s else x # replace_pair a b r (y # s))"
| "replace_pair a b r s = s"

definition esc_js :: "string \<Rightarrow> string" where
  "esc_js text =
     (let safe = replace_char (CHR 0x0D) [] text;
          safe = replace_char (CHR 0x5C) [CHR 0x5C, CHR 0x5C] safe;
          safe = replace_char (CHR 0x27) [CHR 0x5C, CHR 0x27] safe;
          safe = replace_char (CHR 0x22) [CHR 0x5C, CHR 0x22] safe;
          safe = replace_char (CHR 0x0A) [CHR 0x5C, CHR ''n''] safe
      in safe)"

definition unescape_js :: "string \<Rightarrow> string" where
  "unescape_js text =
     (let unescaped = replace_pair (CHR 0x5C) (CHR ''n'') [CHR 0x0A] text;
          unescaped = replace_pair (CHR 0x5C) (CHR 0x22) [CHR 0x22] unescaped;
          unescaped = replace_pair (CHR 0x5C) (CHR 0x27) [CHR 0x27] unescaped;
          unescaped = replace_pair (CHR 0x5C) (CHR 0x5C) [CHR 0x5C] unescaped
      in unescaped)"

subsection \<open>The patterns\<close>

text \<open>
  The character classes \<open>\s\<close> and \<open>\w\<close> of a regular expression without flags, on
  characters below 256.
\<close>

definition is_space :: "char \<Rightarrow> bool" where
  "is_space c = (of_char c \<in> {9, 10, 11, 12, 13, 32, 160 :: nat})"

definition is_word :: "char \<Rightarrow> bool" where
  "is_word c = (let n = of_char c :: nat in
                  (48 \<le> n \<and> n \<le> 57) \<or> (65 \<le> n \<and> n \<le> 90) \<or> (97 \<le> n \<and> n \<le> 122) \<or> n = 95)"

definition is_quote :: "char \<Rightarrow> bool" where
  "is_quote c = (c = CHR 0x27 \<or> c = CHR 0x22)"

fun strip_prefix :: "string \<Rightarrow> string \<Rightarrow> string option" where
  "strip_prefix [] s = Some s"
| "strip_prefix (p # ps) [] = None"
| "strip_prefix (p # ps) (x # s) = (if p = x then strip_prefix ps s else None)"

text \<open>
  \<open>/decodeURIComponent\(\s*['"]([^'"]+)['"]\s*\)/\<close> tried at the start of \<open>s\<close>; the result
  is the captured group. The neighbouring classes of the pattern are disjoint, so the
  greedy choice is the only one that can succeed.
\<close>

definition encoded_here :: "string \<Rightarrow> string option" where
  "encoded_here s =
     (case strip_prefix ''decodeURIComponent('' s of
        None \<Rightarrow> None
      | Some r \<Rightarrow>
          (case dropWhile is_space r of
             [] \<Rightarrow> None
           | q # r \<Rightarrow>
               if \<not> is_quote q then None
               else let group = takeWhile (\<lambda>c. \<not> is_quote c) r in
                 if group = [] then None
                 else (case dropWhile (\<lambda>c. \<not> is_quote c) r of
                         [] \<Rightarrow> None
                       | q' # r \<Rightarrow>
                           (case dropWhile is_space r of
                              [] \<Rightarrow> None
                            | c # r \<Rightarrow> if c = CHR '')'' then Some group else None))))"

text \<open>\<open>String.prototype.match\<close> returns the leftmost match.\<close>

fun leftmost :: "(string \<Rightarrow> 'a option) \<Rightarrow> string \<Rightarrow> 'a option" where
  "leftmost m [] = m []"
| "leftmost m (x # s) = (case m (x # s) of Some r \<Rightarrow> Some r | None \<Rightarrow> leftmost m s)"

definition encodedMatch :: "string \<Rightarrow> string option" where
  "encodedMatch beforeScript = leftmost encoded_here beforeScript"

text \<open>\<open>/var\s+(\w+)\s*=/\<close> tried at the start of \<open>s\<close>.\<close>

definition var_here :: "string \<Rightarrow> string option" where
  "var_here s =
     (case strip_prefix ''var'' s of
        None \<Rightarrow> None
      | Some r \<Rightarrow>
          if takeWhile is_space r = [] then None
          else let r = dropWhile is_space r; group = takeWhile is_word r in
            if group = [] then None
            else (case dropWhile is_space (dropWhile is_word r) of
                    [] \<Rightarrow> None
                  | c # r \<Rightarrow> if c = CHR ''='' then Some group else None))"

definition varMatch :: "string \<Rightarrow> string option" where
  "varMatch beforeScript = leftmost var_here beforeScript"

text \<open>
  \<open>/^https?:\/\/[^\/]+/\<close>: the length of the match at the start of \<open>s\<close>.
\<close>

definition origin_length :: "string \<Rightarrow> nat option" where
  "origin_length s =
     (case strip_prefix ''http'' s of
        None \<Rightarrow> None
      | Some r \<Rightarrow>
          (case (case strip_prefix ''s://'' r of
                   Some r' \<Rightarrow> Some (8, r')
                 | None \<Rightarrow> map_option (Pair 7) (strip_prefix ''://'' r)) of
             None \<Rightarrow> None
           | Some (n, r') \<Rightarrow>
               let host = takeWhile (\<lambda>c. c \<noteq> CHR ''/'') r' in
                 if host = [] then None else Some (n + length host)))"

text \<open>
  The replacement text of \<open>replace\<close> is not taken literally: \<open>$$\<close>, \<open>$&\<close>, \<open>$`\<close> and
  \<open>$'\<close> stand for a dollar sign, the match, the text before it and the text after it. The
  pattern has no group, so \<open>$1\<close> and the like stay as they are.
\<close>

fun substitution :: "string \<Rightarrow> string \<Rightarrow> string \<Rightarrow> string \<Rightarrow> string" where
  "substitution matched preceding following (x # y # r) =
     (if x = CHR ''$'' \<and> y = CHR ''$'' then CHR ''$'' # substitution matched preceding following r
      else if x = CHR ''$'' \<and> y = CHR ''&'' then matched @ substitution matched preceding following r
      else if x = CHR ''$'' \<and> y = CHR 0x60 then preceding @ substitution matched preceding following r
      else if x = CHR ''$'' \<and> y = CHR 0x27 then following @ substitution matched preceding following r
      else x # substitution matched preceding following (y # r))"
| "substitution matched preceding following r = r"

definition replace_origin :: "string \<Rightarrow> string \<Rightarrow> string" where
  "replace_origin s replacement =
     (case origin_length s of
        None \<Rightarrow> s
      | Some n \<Rightarrow> substitution (take n s) [] (drop n s) replacement @ drop n s)"

text \<open>\<open>path.replace('/wp-json', '')\<close> removes the first occurrence.\<close>

fun remove_first :: "string \<Rightarrow> string \<Rightarrow> string" where
  "remove_first p [] = []"
| "remove_first p (x # s) =
     (case strip_prefix p (x # s) of Some r \<Rightarrow> r | None \<Rightarrow> x # remove_first p s)"

subsection \<open>The payload\<close>

text \<open>
  The values that \<open>JSON.parse\<close> returns. An object lists its properties in the order in
  which JavaScript enumerates them. The numbers are those of the platform.
\<close>

datatype 'n json =
    JNull | JBool bool | JNumber 'n | JString string
  | JArray "'n json list" | JObject "(string \<times> 'n json) list"

text \<open>
  What the platform provides: \<open>JSON.parse\<close>, \<open>JSON.stringify\<close>, \<open>decodeURIComponent\<close>
  and \<open>encodeURIComponent\<close>, each with the exception it may throw, \<open>new URL(v)\<close> for a
  value \<open>v\<close> of the payload (\<open>None\<close> where it throws), and which numbers are falsy.
\<close>

record 'n platform =
  JSON_parse :: "string \<Rightarrow> js_error + 'n json"
  JSON_stringify :: "'n json \<Rightarrow> js_error + string"
  decodeURIComponent :: "string \<Rightarrow> js_error + string"
  encodeURIComponent :: "string \<Rightarrow> js_error + string"
  new_URL :: "'n json \<Rightarrow> URL option"
  is_zero_or_NaN :: "'n \<Rightarrow> bool"

definition decodeWcSettings :: "'n platform \<Rightarrow> string \<Rightarrow> js_error + ('n json \<times> string)" where
  "decodeWcSettings pf beforeScript =
     (case encodedMatch beforeScript of
        None \<Rightarrow> Inl (GenericError ''[decodeWcSettings] Could not find encoded string in beforeScript'')
      | Some encodedString \<Rightarrow>
          (case decodeURIComponent pf (unescape_js encodedString) of
             Inl e \<Rightarrow> Inl e
           | Inr decodedJson \<Rightarrow>
               (case JSON_parse pf decodedJson of
                  Inl e \<Rightarrow> Inl e
                | Inr target \<Rightarrow> Inr (target, encodedString))))"

text \<open>
  The template \<open>`var ${varName} = JSON.parse( decodeURIComponent( '${escaped}' ) );`\<close>.
\<close>

definition var_template :: "string \<Rightarrow> string \<Rightarrow> string" where
  "var_template varName escaped =
     ''var '' @ varName @ '' = JSON.parse( decodeURIComponent( '' @ [CHR 0x27] @ escaped
     @ [CHR 0x27] @ '' ) );''"

definition rawurlencode :: "'n platform \<Rightarrow> string \<Rightarrow> js_error + string" where
  "rawurlencode pf str = encodeURIComponent pf str"

definition encodeWcSettings :: "'n platform \<Rightarrow> string \<Rightarrow> string \<Rightarrow> 'n json \<Rightarrow> js_error + string" where
  "encodeWcSettings pf beforeScript encodedString transformed =
     (case JSON_stringify pf transformed of
        Inl e \<Rightarrow> Inl e
      | Inr json \<Rightarrow>
          (case rawurlencode pf json of
             Inl e \<Rightarrow> Inl e
           | Inr urlEncoded \<Rightarrow>
               (let escaped = esc_js urlEncoded in
                  case varMatch beforeScript of
                    None \<Rightarrow> Inl (GenericError ''[encodeWcSettings] Could not find variable declaration'')
                  | Some varName \<Rightarrow>
                      Inr (var_template varName escaped))))"

subsection \<open>The rewriting of the payload\<close>

text \<open>
  A JavaScript value in a condition; \<open>None\<close> is \<open>undefined\<close>.
\<close>

definition truthy_json :: "'n platform \<Rightarrow> 'n json option \<Rightarrow> bool" where
  "truthy_json pf v =
     (case v of
        None \<Rightarrow> False
      | Some JNull \<Rightarrow> False
      | Some (JBool b) \<Rightarrow> b
      | Some (JNumber n) \<Rightarrow> \<not> is_zero_or_NaN pf n
      | Some (JString s) \<Rightarrow> s \<noteq> []
      | Some (JArray xs) \<Rightarrow> True
      | Some (JObject ps) \<Rightarrow> True)"

text \<open>
  Reading one of the properties that the transformation names. Only an object of the
  payload can have it: arrays, strings, numbers and booleans answer \<open>undefined\<close>.
  (Reading a property of \<open>null\<close> throws; apart from the payload itself every value read
  from is truthy, or read with \<open>?.\<close>.)
\<close>

definition property :: "'n json \<Rightarrow> string \<Rightarrow> 'n json option" where
  "property v k = (case v of JObject ps \<Rightarrow> map_get ps k | _ \<Rightarrow> None)"

text \<open>
  Assigning to a property that was read as truthy: the value is an object that has the
  property, which keeps its place.
\<close>

definition assign :: "'n json \<Rightarrow> string \<Rightarrow> 'n json \<Rightarrow> 'n json" where
  "assign v k x = (case v of JObject ps \<Rightarrow> JObject (map_set ps k x) | _ \<Rightarrow> v)"

fun map_result :: "('a \<Rightarrow> 'e + 'b) \<Rightarrow> 'a list \<Rightarrow> 'e + 'b list" where
  "map_result f [] = Inr []"
| "map_result f (x # xs) =
     (case f x of
        Inl e \<Rightarrow> Inl e
      | Inr y \<Rightarrow> (case map_result f xs of Inl e \<Rightarrow> Inl e | Inr ys \<Rightarrow> Inr (y # ys)))"

text \<open>
  Step 1, one page: \<open>new URL\<close> is not guarded here, so its exception leaves the loop.
\<close>

definition rewrite_page :: "'n platform \<Rightarrow> string \<Rightarrow> 'n json \<Rightarrow> js_error + 'n json" where
  "rewrite_page pf frontendUrl page =
     (if truthy_json pf (property page ''permalink'')
      then (case new_URL pf (the (property page ''permalink'')) of
              None \<Rightarrow> Inl TypeError
            | Some url \<Rightarrow> Inr (assign page ''permalink'' (JString (frontendUrl @ pathname url))))
      else Inr page)"

text \<open>
  \<open>for (const page in transformed.storePages)\<close> visits the keys of an object and the
  indices of an array; the characters of a string and the other values have no
  \<open>permalink\<close>.
\<close>

definition rewrite_storePages :: "'n platform \<Rightarrow> string \<Rightarrow> 'n json \<Rightarrow> js_error + 'n json" where
  "rewrite_storePages pf frontendUrl storePages =
     (case storePages of
        JObject pages \<Rightarrow>
          (case map_result (\<lambda>(page, v). case rewrite_page pf frontendUrl v of
                                            Inl e \<Rightarrow> Inl e | Inr v' \<Rightarrow> Inr (page, v')) pages of
             Inl e \<Rightarrow> Inl e
           | Inr pages' \<Rightarrow> Inr (JObject pages'))
      | JArray pages \<Rightarrow>
          (case map_result (rewrite_page pf frontendUrl) pages of
             Inl e \<Rightarrow> Inl e
           | Inr pages' \<Rightarrow> Inr (JArray pages'))
      | _ \<Rightarrow> Inr storePages)"

definition step1 :: "'n platform \<Rightarrow> string \<Rightarrow> 'n json \<Rightarrow> js_error + 'n json" where
  "step1 pf frontendUrl transformed =
     (if truthy_json pf (property transformed ''storePages'')
      then (case rewrite_storePages pf frontendUrl (the (property transformed ''storePages'')) of
              Inl e \<Rightarrow> Inl e
            | Inr storePages \<Rightarrow> Inr (assign transformed ''storePages'' storePages))
      else Inr transformed)"

definition is_string :: "'n json option \<Rightarrow> bool" where
  "is_string v = (case v of Some (JString s) \<Rightarrow> True | _ \<Rightarrow> False)"

definition step2 :: "'n platform \<Rightarrow> string \<Rightarrow> 'n json \<Rightarrow> 'n json" where
  "step2 pf frontendUrl transformed =
     (if truthy_json pf (property transformed ''homeUrl'') \<and> is_string (property transformed ''homeUrl'')
      then assign transformed ''homeUrl'' (JString frontendUrl)
      else transformed)"

definition step3 :: "'n platform \<Rightarrow> string \<Rightarrow> 'n json \<Rightarrow> 'n json" where
  "step3 pf frontendUrl transformed =
     (case property transformed ''dashboardUrl'' of
        Some (JString originalUrl) \<Rightarrow>
          if originalUrl = [] then transformed
          else (case new_URL pf (JString originalUrl) of
                  Some url \<Rightarrow>
                    assign transformed ''dashboardUrl'' (JString (frontendUrl @ pathname url))
                | None \<Rightarrow>
                    assign transformed ''dashboardUrl''
                      (JString (replace_origin originalUrl frontendUrl)))
      | _ \<Rightarrow> transformed)"

text \<open>
  \<open>try { const url = new URL(originalUrl); ... } catch { }\<close> on a property of \<open>holder\<close>:
  a value that does not parse is kept.
\<close>

definition rewrite_url ::
  "'n platform \<Rightarrow> (URL \<Rightarrow> string) \<Rightarrow> string \<Rightarrow> 'n json \<Rightarrow> 'n json" where
  "rewrite_url pf target k holder =
     (if truthy_json pf (property holder k)
      then (case new_URL pf (the (property holder k)) of
              Some url \<Rightarrow> assign holder k (JString (target url))
            | None \<Rightarrow> holder)
      else holder)"

text \<open>
  \<open>Object.entries\<close>: the properties of an object, the elements of an array and the
  characters of a string under their indices, nothing for a number or a boolean.
\<close>

definition entries :: "'n json \<Rightarrow> (string \<times> 'n json) list" where
  "entries v =
     (case v of
        JObject ps \<Rightarrow> ps
      | JArray xs \<Rightarrow> map (\<lambda>i. (show_nat i, xs ! i)) [0 ..< length xs]
      | JString s \<Rightarrow> map (\<lambda>i. (show_nat i, JString [s ! i])) [0 ..< length s]
      | _ \<Rightarrow> [])"

definition rewrite_route :: "string \<Rightarrow> string \<Rightarrow> 'n json \<Rightarrow> 'n json" where
  "rewrite_route frontendUrl instance v =
     (case v of
        JString s \<Rightarrow>
          (let path = replace_origin s [] in
             JString (frontendUrl @ ''/atx/'' @ instance @ ''/wp-json''
                      @ remove_first ''/wp-json'' path))
      | _ \<Rightarrow> v)"

text \<open>
  \<open>newRoutes[key] = ...\<close> on the fresh object \<open>newRoutes\<close>. The key \<open>__proto__\<close> names
  the prototype of \<open>newRoutes\<close>: the assignment adds no property.
\<close>

definition rewrite_routes :: "string \<Rightarrow> string \<Rightarrow> 'n json \<Rightarrow> 'n json" where
  "rewrite_routes frontendUrl instance restApiRoutes =
     JObject (fold (\<lambda>(key, v) newRoutes.
                      if key = ''__proto__'' then newRoutes
                      else map_set newRoutes key (rewrite_route frontendUrl instance v))
                (entries restApiRoutes) [])"

definition rewrite_wcBlocksConfig ::
  "'n platform \<Rightarrow> string \<Rightarrow> string \<Rightarrow> 'n json \<Rightarrow> 'n json" where
  "rewrite_wcBlocksConfig pf frontendUrl instance config =
     (let assets = (\<lambda>url. frontendUrl @ ''/atx/'' @ instance @ ''/wp-assets'' @ pathname url);
          config = rewrite_url pf assets ''pluginUrl'' config;
          config = rewrite_url pf assets ''productImages'' config;
          config = (if truthy_json pf (property config ''homeUrl'')
                    then assign config ''homeUrl'' (JString frontendUrl) else config);
          config = (if truthy_json pf (property config ''restApiRoutes'')
                    then assign config ''restApiRoutes''
                           (rewrite_routes frontendUrl instance (the (property config ''restApiRoutes'')))
                    else config)
      in config)"

definition step4 :: "'n platform \<Rightarrow> string \<Rightarrow> string \<Rightarrow> 'n json \<Rightarrow> 'n json" where
  "step4 pf frontendUrl instance transformed =
     (if truthy_json pf (property transformed ''wcBlocksConfig'')
      then assign transformed ''wcBlocksConfig''
             (rewrite_wcBlocksConfig pf frontendUrl instance (the (property transformed ''wcBlocksConfig'')))
      else transformed)"

definition rewrite_stripe_settings :: "'n platform \<Rightarrow> string \<Rightarrow> 'n json \<Rightarrow> 'n json" where
  "rewrite_stripe_settings pf frontendUrl settings =
     (let page = (\<lambda>url. frontendUrl @ pathname url @ search url);
          settings = rewrite_url pf page ''stripe_return_url'' settings;
          settings = rewrite_url pf page ''stripe_checkout_url'' settings
      in settings)"

definition step5 :: "'n platform \<Rightarrow> string \<Rightarrow> 'n json \<Rightarrow> 'n json" where
  "step5 pf frontendUrl transformed =
     (if truthy_json pf (property transformed ''stripe_settings'')
      then assign transformed ''stripe_settings''
             (rewrite_stripe_settings pf frontendUrl (the (property transformed ''stripe_settings'')))
      else transformed)"

record wc_options =
  rewriteLoginUrl :: "bool option"

definition step6 :: "'n platform \<Rightarrow> string \<Rightarrow> wc_options \<Rightarrow> 'n json \<Rightarrow> 'n json" where
  "step6 pf frontendUrl options transformed =
     (if (case rewriteLoginUrl options of None \<Rightarrow> False | Some b \<Rightarrow> b)
         \<and> truthy_json pf (property transformed ''wpLoginUrl'')
      then assign transformed ''wpLoginUrl'' (JString (frontendUrl @ ''/login''))
      else transformed)"

text \<open>
  The steps between decoding and encoding. \<open>transformed.storePages\<close> is read first, which
  throws when the payload is \<open>null\<close>.
\<close>

definition rewrite_settings ::
  "'n platform \<Rightarrow> string \<Rightarrow> string \<Rightarrow> wc_options \<Rightarrow> 'n json \<Rightarrow> js_error + 'n json" where
  "rewrite_settings pf frontendUrl instance options transformed =
     (if transformed = JNull then Inl TypeError
      else (case step1 pf frontendUrl transformed of
              Inl e \<Rightarrow> Inl e
            | Inr transformed \<Rightarrow>
                Inr (step6 pf frontendUrl options
                       (step5 pf frontendUrl
                          (step4 pf frontendUrl instance
                             (step3 pf frontendUrl
                                (step2 pf frontendUrl transformed)))))))"

text \<open>\<open>JSON.parse(JSON.stringify(target))\<close>.\<close>

definition clone :: "'n platform \<Rightarrow> 'n json \<Rightarrow> js_error + 'n json" where
  "clone pf target =
     (case JSON_stringify pf target of Inl e \<Rightarrow> Inl e | Inr text \<Rightarrow> JSON_parse pf text)"

text \<open>The body of the \<open>try\<close> block: \<open>Inl\<close> is the exception that reaches \<open>catch\<close>.\<close>

definition transformWcSettings_try ::
  "'n platform \<Rightarrow> string \<Rightarrow> string \<Rightarrow> string \<Rightarrow> wc_options \<Rightarrow> js_error + string" where
  "transformWcSettings_try pf beforeScript frontendUrl instance options =
     (case decodeWcSettings pf beforeScript of
        Inl e \<Rightarrow> Inl e
      | Inr (target, encodedString) \<Rightarrow>
          (case clone pf target of
             Inl e \<Rightarrow> Inl e
           | Inr transformed \<Rightarrow>
               (case rewrite_settings pf frontendUrl instance options transformed of
                  Inl e \<Rightarrow> Inl e
                | Inr transformed \<Rightarrow>
                    encodeWcSettings pf beforeScript encodedString transformed)))"

text \<open>
  \<open>transformWcSettings\<close> with what it logs: \<open>catch (e)\<close> reports \<open>e\<close> on the console and
  returns \<open>beforeScript\<close>.
\<close>

definition transformWcSettings_logged ::
  "'n platform \<Rightarrow> string \<Rightarrow> string \<Rightarrow> string \<Rightarrow> wc_options \<Rightarrow> string \<times> js_error option" where
  "transformWcSettings_logged pf beforeScript frontendUrl instance options =
     (case transformWcSettings_try pf beforeScript frontendUrl instance options of
        Inl e \<Rightarrow> (beforeScript, Some e)
      | Inr result \<Rightarrow> (result, None))"

definition transformWcSettings ::
  "'n platform \<Rightarrow> string \<Rightarrow> string \<Rightarrow> string \<Rightarrow> wc_options \<Rightarrow> string" where
  "transformWcSettings pf beforeScript frontendUrl instance options =
     fst (transformWcSettings_logged pf beforeScript frontendUrl instance options)"

subsection \<open>Failures leave the script as it is\<close>





subsection \<open>Decoding and encoding the template\<close>








lemma leftmost_skip: "m (x # s) = None \<Longrightarrow> leftmost m (x # s) = leftmost m s"
  by simp










subsection \<open>Concrete scripts\<close>

text \<open>
  The results of the platform's functions on the arguments of the examples below; no
  other argument is used there. The numbers of these payloads would be integers.
\<close>

definition example_platform :: "int platform" where
  "example_platform =
     \<lparr>JSON_parse = (\<lambda>text.
        if text = ''{\"homeUrl\":\"https://wp.example.com\"}''
        then Inr (JObject [(''homeUrl'', JString ''https://wp.example.com'')])
        else if text = ''{\"storePages\":{\"cart\":{\"permalink\":\"/cart/\"}}}''
        then Inr (JObject [(''storePages'',
                            JObject [(''cart'', JObject [(''permalink'', JString ''/cart/'')])])])
        else if text = ''{\"badge\":\"Sale!\"}'' then Inr (JObject [(''badge'', JString ''Sale!'')])
        else Inl SyntaxError),
      JSON_stringify = (\<lambda>v.
        if v = JObject [(''homeUrl'', JString ''https://wp.example.com'')]
        then Inr ''{\"homeUrl\":\"https://wp.example.com\"}''
        else if v = JObject [(''homeUrl'', JString ''http://localhost:3000'')]
        then Inr ''{\"homeUrl\":\"http://localhost:3000\"}''
        else if v = JObject [(''storePages'',
                              JObject [(''cart'', JObject [(''permalink'', JString ''/cart/'')])])]
        then Inr ''{\"storePages\":{\"cart\":{\"permalink\":\"/cart/\"}}}''
        else if v = JObject [(''badge'', JString ''Sale!'')] then Inr ''{\"badge\":\"Sale!\"}''
        else Inl TypeError),
      decodeURIComponent = (\<lambda>s.
        if s = ''%7B%22homeUrl%22%3A%22https%3A%2F%2Fwp.example.com%22%7D''
        then Inr ''{\"homeUrl\":\"https://wp.example.com\"}''
        else if s = ''%7B%22storePages%22%3A%7B%22cart%22%3A%7B%22permalink%22%3A%22%2Fcart%2F%22%7D%7D%7D''
        then Inr ''{\"storePages\":{\"cart\":{\"permalink\":\"/cart/\"}}}''
        else if s = ''%7B%22badge%22%3A%22Sale%21%22%7D'' \<or> s = ''%7B%22badge%22%3A%22Sale!%22%7D'' then Inr ''{\"badge\":\"Sale!\"}''
        else Inl URIError),
      encodeURIComponent = (\<lambda>s.
        if s = ''{\"homeUrl\":\"http://localhost:3000\"}''
        then Inr ''%7B%22homeUrl%22%3A%22http%3A%2F%2Flocalhost%3A3000%22%7D''
        else if s = ''{\"badge\":\"Sale!\"}'' then Inr ''%7B%22badge%22%3A%22Sale!%22%7D''
        else Inl URIError),
      new_URL = (\<lambda>v. None),
      is_zero_or_NaN = (\<lambda>n. n = 0)\<rparr>"

definition script_of :: "string \<Rightarrow> string" where
  "script_of encoded = var_template ''wcSettings'' encoded"

text \<open>
  A payload whose \<open>homeUrl\<close> is rewritten, a script without the pattern, and a payload
  with a permalink that \<open>new URL\<close> rejects: the first is encoded again, the others come
  back as they are, the last with the exception on the console.
\<close>

lemma home_example:
  "transformWcSettings example_platform
     (script_of ''%7B%22homeUrl%22%3A%22https%3A%2F%2Fwp.example.com%22%7D'')
     ''http://localhost:3000'' ''default'' \<lparr>rewriteLoginUrl = None\<rparr>
   = script_of ''%7B%22homeUrl%22%3A%22http%3A%2F%2Flocalhost%3A3000%22%7D''"
  by code_simp


lemma cart_example:
  "transformWcSettings_logged example_platform
     (script_of ''%7B%22storePages%22%3A%7B%22cart%22%3A%7B%22permalink%22%3A%22%2Fcart%2F%22%7D%7D%7D'')
     ''http://localhost:3000'' ''default'' \<lparr>rewriteLoginUrl = None\<rparr>
   = (script_of ''%7B%22storePages%22%3A%7B%22cart%22%3A%7B%22permalink%22%3A%22%2Fcart%2F%22%7D%7D%7D'',
      Some TypeError)"
  by code_simp





end
